theory Spec2Isabelle
  imports Complex_Main "HOL-Library.FSet" "HOL-Library.Multiset"
    "HOL-Library.Char_ord" "HOL-Library.List_Lexorder"
begin

section \<open>Text primitives\<close>

text \<open>
  Texts are \<^typ>\<open>string\<close>s over the ASCII alphabet. The Python sources work on
  \<^verbatim>\<open>str\<close>; \<^verbatim>\<open>str.lower\<close>, the class \<^verbatim>\<open>\w\<close> and
  \<^verbatim>\<open>str.strip\<close> are modelled by their ASCII behaviour, a character outside
  ASCII being a caseless non-word character.
\<close>

definition is_upper :: "char \<Rightarrow> bool" where
  "is_upper c = (c \<in> set ''ABCDEFGHIJKLMNOPQRSTUVWXYZ'')"

definition is_lower :: "char \<Rightarrow> bool" where
  "is_lower c = (c \<in> set ''abcdefghijklmnopqrstuvwxyz'')"

definition is_digit :: "char \<Rightarrow> bool" where
  "is_digit c = (c \<in> set ''0123456789'')"

text \<open>\<^verbatim>\<open>\w\<close>: letters, digits and the underscore.\<close>

definition is_word :: "char \<Rightarrow> bool" where
  "is_word c = (is_lower c \<or> is_upper c \<or> is_digit c \<or> c = CHR ''_'')"

definition lower_char :: "char \<Rightarrow> char" where
  "lower_char c =
     (case map_of (zip ''ABCDEFGHIJKLMNOPQRSTUVWXYZ'' ''abcdefghijklmnopqrstuvwxyz'') c of
        None \<Rightarrow> c | Some l \<Rightarrow> l)"

definition upper_char :: "char \<Rightarrow> char" where
  "upper_char c =
     (case map_of (zip ''abcdefghijklmnopqrstuvwxyz'' ''ABCDEFGHIJKLMNOPQRSTUVWXYZ'') c of
        None \<Rightarrow> c | Some u \<Rightarrow> u)"

text \<open>\<^verbatim>\<open>s.lower()\<close>\<close>

definition lower :: "string \<Rightarrow> string" where
  "lower s = map lower_char s"

section \<open>The regular expressions of the skill normaliser\<close>

text \<open>
  \<^verbatim>\<open>normalize_text\<close> builds one pattern only:
  \<^verbatim>\<open>r"\b" + re.escape(p) + r"\b"\<close>, the literal \<open>p\<close> between two word
  boundaries. The matcher below walks the text from left to right and carries the
  character before the current position (\<open>None\<close> at the start of the text), which
  is what \<^verbatim>\<open>\b\<close> looks at.
\<close>

fun wordc :: "char option \<Rightarrow> bool" where
  "wordc None = False"
| "wordc (Some c) = is_word c"

text \<open>\<^verbatim>\<open>\b\<close> between two neighbouring places of the text.\<close>

definition boundary :: "char option \<Rightarrow> char option \<Rightarrow> bool" where
  "boundary p n = (wordc p \<noteq> wordc n)"

fun headc :: "string \<Rightarrow> char option" where
  "headc [] = None"
| "headc (c # cs) = Some c"

definition lastc :: "char option \<Rightarrow> string \<Rightarrow> char option" where
  "lastc prev pat = (if pat = [] then prev else Some (last pat))"

text \<open>The pattern matches at the current position: \<open>s\<close> is the text from there on.\<close>

definition match_here :: "char option \<Rightarrow> string \<Rightarrow> string \<Rightarrow> bool" where
  "match_here prev pat s =
     (take (length pat) s = pat \<and> boundary prev (headc s) \<and>
      boundary (lastc prev pat) (headc (drop (length pat) s)))"

fun re_search_from :: "char option \<Rightarrow> string \<Rightarrow> string \<Rightarrow> bool" where
  "re_search_from prev pat [] = match_here prev pat []"
| "re_search_from prev pat (c # cs) =
     (match_here prev pat (c # cs) \<or> re_search_from (Some c) pat cs)"

text \<open>\<^verbatim>\<open>re.search(r"\b" + re.escape(pat) + r"\b", s)\<close> finds a match.\<close>

definition re_search :: "string \<Rightarrow> string \<Rightarrow> bool" where
  "re_search pat s = re_search_from None pat s"

text \<open>
  \<^verbatim>\<open>re.sub\<close> replaces the non-overlapping matches from left to right. After a
  match of a non-empty literal the scan goes on behind it; an empty literal matches
  the empty string at every word boundary, where the replacement is inserted and the
  scan moves one character on. The replacement is inserted as it is, which is what
  \<^verbatim>\<open>re.sub\<close> does with a replacement that has no backslash (see \<open>plain\<close>).
\<close>

function re_sub_from :: "char option \<Rightarrow> string \<Rightarrow> string \<Rightarrow> string \<Rightarrow> string" where
  "re_sub_from prev pat repl s =
     (if match_here prev pat s then
        (if pat = [] then
           (case s of [] \<Rightarrow> repl | c # cs \<Rightarrow> repl @ c # re_sub_from (Some c) pat repl cs)
         else repl @ re_sub_from (Some (last pat)) pat repl (drop (length pat) s))
      else
        (case s of [] \<Rightarrow> [] | c # cs \<Rightarrow> c # re_sub_from (Some c) pat repl cs))"
  by pat_completeness auto
termination
proof (relation "measure (\<lambda>(prev, pat, repl, s). length s)")
  show "wf (measure (\<lambda>(prev, pat, repl, s). length s))" by simp
next
  fix prev :: "char option" and pat repl s :: string and c :: char and cs :: string
  assume "s = c # cs"
  then show "((Some c, pat, repl, cs), (prev, pat, repl, s))
               \<in> measure (\<lambda>(prev, pat, repl, s). length s)" by simp
next
  fix prev :: "char option" and pat repl s :: string
  assume m: "match_here prev pat s" and ne: "pat \<noteq> []"
  from m have "take (length pat) s = pat" by (simp add: match_here_def)
  with ne have "s \<noteq> []" by auto
  with ne show "((Some (last pat), pat, repl, drop (length pat) s), (prev, pat, repl, s))
               \<in> measure (\<lambda>(prev, pat, repl, s). length s)" by simp
next
  fix prev :: "char option" and pat repl s :: string and c :: char and cs :: string
  assume "s = c # cs"
  then show "((Some c, pat, repl, cs), (prev, pat, repl, s))
               \<in> measure (\<lambda>(prev, pat, repl, s). length s)" by simp
qed

declare re_sub_from.simps [simp del]

definition re_sub :: "string \<Rightarrow> string \<Rightarrow> string \<Rightarrow> string" where
  "re_sub pat repl s = re_sub_from None pat repl s"

text \<open>
  A replacement without a backslash is a literal for \<^verbatim>\<open>re.sub\<close>; one with a
  backslash is a template that the \<^verbatim>\<open>re\<close> module expands or rejects. The
  statements about replaced text are made for plain canonical names.
\<close>

definition plain :: "string \<Rightarrow> bool" where
  "plain s = (CHR 0x5C \<notin> set s)"

section \<open>Skill normalisation (normalize\_skills.py)\<close>

text \<open>
  A skills map is the dictionary read from \<^verbatim>\<open>skills_map.json\<close>: canonical name
  to list of synonyms, iterated in the order of the file.
\<close>

type_synonym skills_map = "(string \<times> string list) list"

definition plain_map :: "skills_map \<Rightarrow> bool" where
  "plain_map M = list_all (\<lambda>e. plain (fst e)) M"

text \<open>The body of the inner loop, for one synonym of \<open>canonical\<close>.\<close>

definition syn_step :: "string \<Rightarrow> string \<times> string set \<Rightarrow> string \<Rightarrow> string \<times> string set" where
  "syn_step canonical st syn =
     (let pat = lower syn in
      if re_search pat (fst st)
      then (re_sub pat (lower canonical) (fst st), insert (lower canonical) (snd st))
      else st)"

text \<open>The body of the outer loop, for one entry of the map.\<close>

definition entry_step :: "string \<times> string set \<Rightarrow> string \<times> string list \<Rightarrow> string \<times> string set" where
  "entry_step st e =
     (let st' = foldl (syn_step (fst e)) st (snd e) in
      if re_search (lower (fst e)) (fst st')
      then (fst st', insert (lower (fst e)) (snd st'))
      else st')"

definition normalize_text :: "string \<Rightarrow> skills_map \<Rightarrow> string \<times> string set" where
  "normalize_text text M = foldl entry_step (lower text, {}) M"

text \<open>
  Vocabulary for the whole-word property: the literal \<open>pat\<close> occurs in \<open>s\<close>
  at index \<open>i\<close>; an occurrence of length \<open>n\<close> at \<open>i\<close> lies inside a larger word
  when a word character touches it on the left or on the right; \<open>pat\<close> begins and
  ends with a word character, so that both \<^verbatim>\<open>\b\<close> ask for a non-word neighbour.
\<close>

definition occurs_at :: "string \<Rightarrow> string \<Rightarrow> nat \<Rightarrow> bool" where
  "occurs_at pat s i = (i + length pat \<le> length s \<and> take (length pat) (drop i s) = pat)"

definition inside_word :: "string \<Rightarrow> nat \<Rightarrow> nat \<Rightarrow> bool" where
  "inside_word s i n =
     ((0 < i \<and> is_word (s ! (i - 1))) \<or> (i + n < length s \<and> is_word (s ! (i + n))))"

definition only_inside_words :: "string \<Rightarrow> string \<Rightarrow> bool" where
  "only_inside_words pat s =
     list_all (\<lambda>i. occurs_at pat s i \<longrightarrow> inside_word s i (length pat)) [0..<Suc (length s)]"

definition word_ended :: "string \<Rightarrow> bool" where
  "word_ended pat = (pat \<noteq> [] \<and> is_word (hd pat) \<and> is_word (last pat))"

text \<open>
  \<open>pat\<close> stands as a whole word somewhere in \<open>s\<close>: it has an occurrence that no word
  character touches.
\<close>

definition whole_word_in :: "string \<Rightarrow> string \<Rightarrow> bool" where
  "whole_word_in pat s =
     list_ex (\<lambda>i. occurs_at pat s i \<and> \<not> inside_word s i (length pat)) [0..<Suc (length s)]"

text \<open>The text is in lower case: \<^verbatim>\<open>lower\<close> leaves every character as it is.\<close>

definition lowered :: "string \<Rightarrow> bool" where
  "lowered s = (\<forall>c \<in> set s. lower_char c = c)"

text \<open>
  The words of a text are its maximal runs of word characters. A single word is a
  non-empty string of word characters.
\<close>

function word_tokens :: "string \<Rightarrow> string list" where
  "word_tokens s =
     (if s = [] then []
      else if is_word (hd s)
           then takeWhile is_word s # word_tokens (dropWhile is_word s)
           else word_tokens (tl s))"
  by pat_completeness auto
termination
proof (relation "measure length")
  show "wf (measure length)" by simp
next
  fix s :: string
  assume "s \<noteq> []" and "is_word (hd s)"
  then have "takeWhile is_word s \<noteq> []" by (cases s) auto
  moreover have "length (takeWhile is_word s) + length (dropWhile is_word s) = length s"
    by (metis length_append takeWhile_dropWhile_id)
  ultimately show "(dropWhile is_word s, s) \<in> measure length" by (cases "takeWhile is_word s") auto
next
  fix s :: string
  assume "s \<noteq> []"
  then show "(tl s, s) \<in> measure length" by simp
qed

declare word_tokens.simps [simp del]

definition single_word :: "string \<Rightarrow> bool" where
  "single_word p = (p \<noteq> [] \<and> list_all is_word p)"

text \<open>The words of the canonical names of a map, lower-cased.\<close>

definition canonical_words :: "skills_map \<Rightarrow> string list" where
  "canonical_words M = concat (map (\<lambda>e. word_tokens (lower (fst e))) M)"

text \<open>
  A map keeps synonyms and canonical names apart when every synonym is either the
  canonical name of its own entry (in lower case), or a single word that is not a word
  of any canonical name of the map.
\<close>

definition separate_map :: "skills_map \<Rightarrow> bool" where
  "separate_map M =
     list_all (\<lambda>e. list_all (\<lambda>syn. lower syn = lower (fst e) \<or>
                                   (single_word (lower syn) \<and> lower syn \<notin> set (canonical_words M)))
                         (snd e)) M"

text \<open>
  No synonym of the map, other than the canonical name of its own entry, is a word of
  the text.
\<close>

definition fresh_synonyms_gone :: "skills_map \<Rightarrow> string \<Rightarrow> bool" where
  "fresh_synonyms_gone M txt =
     list_all (\<lambda>e. list_all (\<lambda>syn. lower syn = lower (fst e) \<or>
                                   lower syn \<notin> set (word_tokens txt))
                         (snd e)) M"

section \<open>Keyword extraction (jd\_parser.py)\<close>

definition STOPWORDS :: "string list" where
  "STOPWORDS =
    [''the'', ''and'', ''or'', ''to'', ''of'', ''in'', ''on'', ''for'', ''with'', ''a'', ''an'',
     ''by'', ''as'', ''is'', ''are'', ''be'', ''will'', ''this'', ''that'', ''we'', ''you'',
     ''our'', ''your'', ''at'', ''from'', ''across'', ''including'', ''such'', ''etc'',
     ''about'', ''into'', ''within'', ''over'', ''under'', ''more'', ''most'', ''least'',
     ''ability'', ''experience'', ''years'', ''year'', ''plus'', ''etc.'',
     ''responsibilities'', ''requirements'', ''preferred'', ''must'', ''nice'', ''have'',
     ''skills'', ''role'', ''job'', ''description'', ''position'', ''candidate'', ''ideal'',
     ''work'', ''working'']"

text \<open>The character class \<^verbatim>\<open>[A-Za-z0-9\+\#\.]\<close>.\<close>

definition kw_char :: "char \<Rightarrow> bool" where
  "kw_char c = (is_upper c \<or> is_lower c \<or> is_digit c \<or> c \<in> set ''+#.'')"

text \<open>
  \<^verbatim>\<open>re.findall(r"[A-Za-z0-9\+\#\.]{3,}", s)\<close>: at each position the greedy
  repetition takes the whole run of class characters; a run of three or more is a
  token and the scan goes on behind it, a shorter one fails and the scan moves one
  character on.
\<close>

function findall_kw :: "string \<Rightarrow> string list" where
  "findall_kw s =
     (if s = [] then []
      else if 3 \<le> length (takeWhile kw_char s)
           then takeWhile kw_char s # findall_kw (dropWhile kw_char s)
           else findall_kw (tl s))"
  by pat_completeness auto
termination
proof (relation "measure length")
  show "wf (measure length)" by simp
next
  fix s :: string
  assume "s \<noteq> []" and "3 \<le> length (takeWhile kw_char s)"
  moreover have "length (takeWhile kw_char s) + length (dropWhile kw_char s) = length s"
    by (metis length_append takeWhile_dropWhile_id)
  ultimately show "(dropWhile kw_char s, s) \<in> measure length" by simp
next
  fix s :: string
  assume "s \<noteq> []"
  then show "(tl s, s) \<in> measure length" by simp
qed

declare findall_kw.simps [simp del]

text \<open>
  The frequency table is a Python dictionary, which keeps its keys in the order of
  their first insertion: \<^verbatim>\<open>freq[w] = freq.get(w, 0) + 1\<close>.
\<close>

fun bump :: "(string \<times> nat) list \<Rightarrow> string \<Rightarrow> (string \<times> nat) list" where
  "bump [] w = [(w, 1)]"
| "bump ((k, c) # freq) w = (if k = w then (k, c + 1) # freq else (k, c) # bump freq w)"

definition count_step :: "(string \<times> nat) list \<Rightarrow> string \<Rightarrow> (string \<times> nat) list" where
  "count_step freq w = (if w \<in> set STOPWORDS then freq else bump freq w)"

definition count_words :: "string list \<Rightarrow> (string \<times> nat) list" where
  "count_words ws = foldl count_step [] ws"

text \<open>The slice \<^verbatim>\<open>xs[:n]\<close>; a negative \<open>n\<close> counts from the end.\<close>

definition py_take :: "int \<Rightarrow> 'a list \<Rightarrow> 'a list" where
  "py_take n xs = (if 0 \<le> n then take (nat n) xs else take (length xs - nat (- n)) xs)"

text \<open>
  \<^verbatim>\<open>sorted(freq.items(), key=lambda x: -x[1])\<close>: Python's sort is stable and
  ascending in the key, as \<^const>\<open>sort_key\<close> is.
\<close>

definition top_keywords :: "string \<Rightarrow> int \<Rightarrow> string list" where
  "top_keywords text n =
     map fst (py_take n (sort_key (\<lambda>x. - int (snd x)) (count_words (findall_kw (lower text)))))"

text \<open>The token stream the table is built from, and the place where a token is first seen.\<close>

definition token_stream :: "string \<Rightarrow> string list" where
  "token_stream text = filter (\<lambda>w. w \<notin> set STOPWORDS) (findall_kw (lower text))"

definition first_index :: "'a list \<Rightarrow> 'a \<Rightarrow> nat" where
  "first_index ws w = length (takeWhile (\<lambda>x. x \<noteq> w) ws)"

text \<open>
  The order of the keyword list: \<open>a\<close> stands before \<open>b\<close> when it is more frequent
  in the token stream, or as frequent and first seen earlier.
\<close>

definition ranks_before :: "string list \<Rightarrow> string \<Rightarrow> string \<Rightarrow> bool" where
  "ranks_before ks a b =
     (count_list ks b < count_list ks a \<or>
      (count_list ks a = count_list ks b \<and> first_index ks a < first_index ks b))"

section \<open>Python floats\<close>

text \<open>
  A Python float is an IEEE 754 binary64 number, and every arithmetic operation returns
  the exact result rounded to the nearest such number, ties to the even significand.
  Floats are modelled by the real numbers they stand for: \<open>fl x\<close> is the float
  nearest to \<open>x\<close>, with a significand of 53 bits. Infinities, NaN, signed zero and the
  limits of the exponent (overflow, subnormal numbers) are not modelled.
\<close>

definition pow2 :: "int \<Rightarrow> real" where
  "pow2 e = (if 0 \<le> e then 2 ^ nat e else 1 / 2 ^ nat (- e))"

text \<open>The binary exponent of \<open>x\<close>: \<open>pow2 (expo x) \<le> \<bar>x\<bar> < pow2 (expo x + 1)\<close>.\<close>

function expo :: "real \<Rightarrow> int" where
  "expo x =
     (if x = 0 then 0
      else if 2 \<le> \<bar>x\<bar> then expo (x / 2) + 1
      else if \<bar>x\<bar> < 1 then expo (x * 2) - 1
      else 0)"
  by pat_completeness auto
termination
proof (relation "measure (\<lambda>x. nat \<bar>\<lfloor>log 2 \<bar>x\<bar>\<rfloor>\<bar>)")
  show "wf (measure (\<lambda>x. nat \<bar>\<lfloor>log 2 \<bar>x\<bar>\<rfloor>\<bar>))" by simp
next
  fix x :: real
  assume nz: "x \<noteq> 0" and big: "2 \<le> \<bar>x\<bar>"
  define k where "k = \<lfloor>log 2 \<bar>x\<bar>\<rfloor>"
  have "log 2 \<bar>x / 2\<bar> = log 2 \<bar>x\<bar> - 1"
    using nz by (simp add: log_divide)
  then have 1: "\<lfloor>log 2 \<bar>x / 2\<bar>\<rfloor> = k - 1" by (simp add: k_def)
  have "1 \<le> log 2 \<bar>x\<bar>" using big by (simp add: le_log_iff)
  then have 2: "1 \<le> k" by (simp add: k_def le_floor_iff)
  from 2 have "nat \<bar>k - 1\<bar> < nat \<bar>k\<bar>" by simp
  then show "(x / 2, x) \<in> measure (\<lambda>x. nat \<bar>\<lfloor>log 2 \<bar>x\<bar>\<rfloor>\<bar>)"
    by (simp only: in_measure 1 k_def [symmetric])
next
  fix x :: real
  assume nz: "x \<noteq> 0" and "\<not> 2 \<le> \<bar>x\<bar>" and small: "\<bar>x\<bar> < 1"
  define k where "k = \<lfloor>log 2 \<bar>x\<bar>\<rfloor>"
  have "log 2 \<bar>x * 2\<bar> = log 2 \<bar>x\<bar> + 1"
    using nz by (simp add: abs_mult log_mult)
  then have 1: "\<lfloor>log 2 \<bar>x * 2\<bar>\<rfloor> = k + 1" by (simp add: k_def)
  have "log 2 \<bar>x\<bar> < 0" using small nz by simp
  then have 2: "k < 0" by (simp add: k_def floor_less_iff)
  from 2 have "nat \<bar>k + 1\<bar> < nat \<bar>k\<bar>" by simp
  then show "(x * 2, x) \<in> measure (\<lambda>x. nat \<bar>\<lfloor>log 2 \<bar>x\<bar>\<rfloor>\<bar>)"
    by (simp only: in_measure 1 k_def [symmetric])
qed

declare expo.simps [simp del]

text \<open>Rounding to the nearest integer, ties to the even one.\<close>

definition round_even :: "real \<Rightarrow> int" where
  "round_even r =
     (let f = \<lfloor>r\<rfloor> in
      if r - of_int f < 1 / 2 then f
      else if 1 / 2 < r - of_int f then f + 1
      else if even f then f else f + 1)"

definition fl :: "real \<Rightarrow> real" where
  "fl x = (if x = 0 then 0
           else let u = pow2 (expo x - 52) in of_int (round_even (x / u)) * u)"

section \<open>Snippet retrieval (app, query\_snippets)\<close>

datatype py_error = ZeroDivisionError | FileNotFoundError | OSError | JSONDecodeError

text \<open>
  The metadata of a snippet, as \<^verbatim>\<open>ensure_chroma_and_index\<close> stores it. \<open>tags\<close> is
  \<open>None\<close> when the dictionary has no \<^verbatim>\<open>"tags"\<close> key and a list otherwise; a
  dictionary whose \<^verbatim>\<open>"tags"\<close> is \<^verbatim>\<open>None\<close>, on which \<^verbatim>\<open>set(...)\<close> raises a
  \<^verbatim>\<open>TypeError\<close>, is not a value of this type.
\<close>

record snippet_meta =
  tags :: "string list option"
  seniority :: string

text \<open>
  What \<^verbatim>\<open>coll.query\<close> returns for the single query text. The distances are
  floats.
\<close>

record query_result =
  documents :: "string list"
  metadatas :: "snippet_meta option list"
  distances :: "real list"

text \<open>
  \<^verbatim>\<open>_overlap_score\<close>. The value is the exact quotient of the two cardinalities;
  the float that \<^verbatim>\<open>inter / union\<close> returns is \<open>fl\<close> of it.
\<close>

definition overlap_score :: "snippet_meta option \<Rightarrow> string fset \<Rightarrow> real" where
  "overlap_score meta jd_skills =
     (let tags0 = fset_of_list
            (case meta of None \<Rightarrow> []
             | Some m \<Rightarrow> (case tags m of None \<Rightarrow> [] | Some ts \<Rightarrow> ts));
          tags1 = fimage lower tags0;
          inter = fcard (tags1 |\<inter>| jd_skills);
          union = (if fcard (tags1 |\<union>| jd_skills) = 0 then 1 else fcard (tags1 |\<union>| jd_skills))
      in real inter / real union)"

text \<open>The tag set the bonus is computed from: the tags of the metadata, lower-cased.\<close>

definition folded_tags :: "snippet_meta option \<Rightarrow> string fset" where
  "folded_tags meta =
     fimage lower (fset_of_list
       (case meta of None \<Rightarrow> [] | Some m \<Rightarrow> (case tags m of None \<Rightarrow> [] | Some ts \<Rightarrow> ts)))"

text \<open>
  \<^verbatim>\<open>[1.0 / (1.0 + d) for d in dists]\<close>, in float arithmetic; the division raises
  when the sum is zero, that is at \<open>d = -1\<close>.
\<close>

fun base_scores :: "real list \<Rightarrow> py_error + real list" where
  "base_scores [] = Inr []"
| "base_scores (d # ds) =
     (let s = fl (1 + d) in
      if s = 0 then Inl ZeroDivisionError
      else (case base_scores ds of
              Inl e \<Rightarrow> Inl e
            | Inr bs \<Rightarrow> Inr (fl (1 / s) # bs)))"

type_synonym boosted = "string \<times> snippet_meta option \<times> real"

definition score :: "boosted \<Rightarrow> real" where
  "score b = snd (snd b)"

text \<open>
  The list \<^verbatim>\<open>boosted\<close> before it is sorted; \<^verbatim>\<open>base + 0.25 * bonus\<close> is a
  float division, a float product and a float sum.
\<close>

definition boosted_candidates ::
  "(string \<Rightarrow> int \<Rightarrow> query_result) \<Rightarrow> string \<Rightarrow> string fset option \<Rightarrow> int \<Rightarrow> py_error + boosted list" where
  "boosted_candidates coll_query jd_text jd_skills top_k =
     (let res = coll_query jd_text (min 50 (top_k * 2));
          docs = documents res;
          metas = metadatas res;
          dists = (if distances res = [] then replicate (length docs) 1 else distances res)
      in case base_scores dists of
           Inl e \<Rightarrow> Inl e
         | Inr bases \<Rightarrow>
             (let skills = fimage lower (case jd_skills of None \<Rightarrow> {||} | Some sk \<Rightarrow> sk)
              in Inr (map (\<lambda>(doc, meta, base).
                             (doc, meta, fl (base + fl (0.25 * fl (overlap_score meta skills)))))
                        (zip docs (zip metas bases)))))"

text \<open>
  The composite score of a candidate at distance \<open>d\<close>, as the specification gives it:
  \<open>base + 0.25 * bonus\<close> with \<open>base = 1 / (1 + d)\<close>, each operation a float operation.
\<close>

definition composite_score :: "real \<Rightarrow> snippet_meta option \<Rightarrow> string fset \<Rightarrow> real" where
  "composite_score d meta skills =
     fl (fl (1 / fl (1 + d)) + fl (0.25 * fl (overlap_score meta skills)))"

text \<open>The distances that \<^verbatim>\<open>query_snippets\<close> scores: those of the index, or 1.0 for each document.\<close>

definition scored_distances :: "query_result \<Rightarrow> real list" where
  "scored_distances res =
     (if distances res = [] then replicate (length (documents res)) 1 else distances res)"

text \<open>
  \<^verbatim>\<open>boosted.sort(key=lambda x: x[2], reverse=True)\<close>: stable, descending in the
  key, which for numbers is the stable ascending sort by the negated key.
\<close>

definition rerank :: "boosted list \<Rightarrow> boosted list" where
  "rerank bs = sort_key (\<lambda>b. - score b) bs"

definition query_snippets ::
  "(string \<Rightarrow> int \<Rightarrow> query_result) \<Rightarrow> string \<Rightarrow> string fset option \<Rightarrow> int \<Rightarrow> py_error + string list" where
  "query_snippets coll_query jd_text jd_skills top_k =
     (case boosted_candidates coll_query jd_text jd_skills top_k of
        Inl e \<Rightarrow> Inl e
      | Inr bs \<Rightarrow> Inr (map fst (py_take top_k (rerank bs))))"

section \<open>The parser (jd\_parser.py, parse\_jd)\<close>

text \<open>
  What is found at the path of the skills map: nothing, a file that cannot be opened,
  a file that is not JSON, or a file holding a map.
\<close>

datatype skills_file = Missing | Unreadable | Malformed | Loaded skills_map

definition load_skills_map :: "(string \<Rightarrow> skills_file) \<Rightarrow> string \<Rightarrow> py_error + skills_map" where
  "load_skills_map fs path =
     (case fs path of
        Missing \<Rightarrow> Inl FileNotFoundError
      | Unreadable \<Rightarrow> Inl OSError
      | Malformed \<Rightarrow> Inl JSONDecodeError
      | Loaded m \<Rightarrow> Inr m)"

definition safe_load_skills_map :: "(string \<Rightarrow> skills_file) \<Rightarrow> string \<Rightarrow> py_error + skills_map" where
  "safe_load_skills_map fs path =
     (case load_skills_map fs path of
        Inl FileNotFoundError \<Rightarrow> Inr []
      | Inl e \<Rightarrow> Inl e
      | Inr m \<Rightarrow> Inr m)"

text \<open>\<^verbatim>\<open>str.strip()\<close> removes ASCII white space at both ends.\<close>

definition is_space :: "char \<Rightarrow> bool" where
  "is_space c = (c \<in> set [CHR 0x09, CHR 0x0A, CHR 0x0B, CHR 0x0C, CHR 0x0D,
                           CHR 0x1C, CHR 0x1D, CHR 0x1E, CHR 0x1F, CHR 0x20])"

definition strip :: "string \<Rightarrow> string" where
  "strip s = rev (dropWhile is_space (rev (dropWhile is_space s)))"

definition sentence_case :: "string \<Rightarrow> string" where
  "sentence_case s0 = (case strip s0 of [] \<Rightarrow> [] | c # cs \<Rightarrow> upper_char c # cs)"

definition normalize_lines :: "string list \<Rightarrow> skills_map \<Rightarrow> string list" where
  "normalize_lines lines M = map (\<lambda>l. sentence_case (fst (normalize_text l M))) lines"

text \<open>
  The field heuristics (\<^verbatim>\<open>_extract_title\<close>, \<^verbatim>\<open>_extract_company\<close>,
  \<^verbatim>\<open>_extract_location\<close>, \<^verbatim>\<open>_guess_seniority\<close>,
  \<^verbatim>\<open>_extract_bullets\<close>) are regular-expression searches that return a string or
  a list for every text; \<open>parse_jd\<close> takes them as functions of the text.
\<close>

datatype section_header = Must_haves | Nice_to_haves | Responsibilities

record extractors =
  extract_title :: "string \<Rightarrow> string"
  extract_company :: "string \<Rightarrow> string"
  extract_location :: "string \<Rightarrow> string"
  guess_seniority :: "string \<Rightarrow> string"
  extract_bullets :: "string \<Rightarrow> section_header \<Rightarrow> string list"

record jd_record =
  title :: string
  company :: string
  location :: string
  seniority_label :: string
  must_haves :: "string list"
  nice_to_haves :: "string list"
  responsibilities :: "string list"
  jd_keywords :: "string list"
  normalized_skills :: "string list"
  normalized_text :: string

definition parse_jd ::
  "extractors \<Rightarrow> (string \<Rightarrow> skills_file) \<Rightarrow> string \<Rightarrow> string \<Rightarrow> int \<Rightarrow> py_error + jd_record" where
  "parse_jd ex fs jd_text0 skills_map_path top_kw =
     (let jd_text = strip jd_text0 in
      case safe_load_skills_map fs skills_map_path of
        Inl e \<Rightarrow> Inl e
      | Inr skills_map \<Rightarrow>
          (let must_haves_raw = extract_bullets ex jd_text Must_haves;
               nice_to_haves_raw = extract_bullets ex jd_text Nice_to_haves;
               responsibilities_raw = extract_bullets ex jd_text Responsibilities;
               norm = normalize_text jd_text skills_map
           in Inr \<lparr> title = extract_title ex jd_text,
                    company = extract_company ex jd_text,
                    location = extract_location ex jd_text,
                    seniority_label = guess_seniority ex jd_text,
                    must_haves = take 15 (normalize_lines must_haves_raw skills_map),
                    nice_to_haves = take 15 (normalize_lines nice_to_haves_raw skills_map),
                    responsibilities = take 30 (normalize_lines responsibilities_raw skills_map),
                    jd_keywords = top_keywords (fst norm) top_kw,
                    normalized_skills = sorted_list_of_set (snd norm),
                    normalized_text = fst norm \<rparr>))"

section \<open>Properties of the skill normaliser\<close>

subsection \<open>The detected set only grows\<close>

lemma syn_step_mono: "snd st \<subseteq> snd (syn_step c st syn)"
  by (auto simp: syn_step_def Let_def)

lemma foldl_syn_mono: "snd st \<subseteq> snd (foldl (syn_step c) st syns)"
proof (induction syns arbitrary: st)
  case Nil
  show ?case by simp
next
  case (Cons a syns)
  have "snd st \<subseteq> snd (syn_step c st a)" by (rule syn_step_mono)
  also have "\<dots> \<subseteq> snd (foldl (syn_step c) (syn_step c st a) syns)" by (rule Cons.IH)
  finally show ?case by simp
qed

lemma entry_step_mono: "snd st \<subseteq> snd (entry_step st e)"
  using foldl_syn_mono [of st "fst e" "snd e"]
  by (auto simp: entry_step_def Let_def)

lemma foldl_entry_mono: "snd st \<subseteq> snd (foldl entry_step st M)"
proof (induction M arbitrary: st)
  case Nil
  show ?case by simp
next
  case (Cons e M)
  have "snd st \<subseteq> snd (entry_step st e)" by (rule entry_step_mono)
  also have "\<dots> \<subseteq> snd (foldl entry_step (entry_step st e) M)" by (rule Cons.IH)
  finally show ?case by simp
qed

subsection \<open>One entry of the map\<close>

lemma foldl_syn_nomatch:
  "\<forall>syn \<in> set syns. \<not> re_search (lower syn) (fst st) \<Longrightarrow> foldl (syn_step c) st syns = st"
  by (induction syns arbitrary: st) (auto simp: syn_step_def Let_def)

text \<open>Either no synonym of the entry matched, or the canonical name is detected.\<close>

lemma foldl_syn_cases:
  "(foldl (syn_step c) st syns = st \<and> (\<forall>syn \<in> set syns. \<not> re_search (lower syn) (fst st)))
   \<or> lower c \<in> snd (foldl (syn_step c) st syns)"
proof (induction syns arbitrary: st)
  case Nil
  show ?case by simp
next
  case (Cons a syns)
  show ?case
  proof (cases "re_search (lower a) (fst st)")
    case True
    then have "lower c \<in> snd (syn_step c st a)" by (simp add: syn_step_def Let_def)
    with foldl_syn_mono [of "syn_step c st a" c syns] show ?thesis by auto
  next
    case False
    then have same: "syn_step c st a = st" by (simp add: syn_step_def Let_def)
    from Cons.IH [of st] same False show ?thesis by auto
  qed
qed

lemma entry_step_syn_hit:
  assumes "syn \<in> set syns" and "re_search (lower syn) (fst st)"
  shows "lower c \<in> snd (entry_step st (c, syns))"
proof -
  from foldl_syn_cases [of c st syns] assms
  have "lower c \<in> snd (foldl (syn_step c) st syns)" by blast
  then show ?thesis by (simp add: entry_step_def Let_def)
qed

lemma entry_step_canonical_hit:
  assumes "re_search (lower c) (fst st)"
  shows "lower c \<in> snd (entry_step st (c, syns))"
  using foldl_syn_cases [of c st syns] assms by (auto simp: entry_step_def Let_def)

lemma normalize_text_append:
  "normalize_text text (M1 @ e # M2) = foldl entry_step (entry_step (normalize_text text M1) e) M2"
  by (simp add: normalize_text_def)

lemma detected_after_entry:
  assumes "x \<in> snd (entry_step (normalize_text text M1) e)"
  shows "x \<in> snd (normalize_text text (M1 @ e # M2))"
  using foldl_entry_mono [of "entry_step (normalize_text text M1) e" M2] assms
  by (auto simp: normalize_text_append)

subsection \<open>Whole words\<close>

text \<open>A match of the pattern at index \<open>i\<close> of the text, in terms of indices.\<close>

lemma re_search_from_iff:
  "re_search_from prev pat s \<longleftrightarrow>
     (\<exists>i\<le>length s. match_here (if i = 0 then prev else Some (s ! (i - 1))) pat (drop i s))"
proof (induction s arbitrary: prev)
  case Nil
  show ?case by simp
next
  case (Cons c cs)
  have "(\<exists>i\<le>length (c # cs). match_here (if i = 0 then prev else Some ((c # cs) ! (i - 1))) pat (drop i (c # cs)))
        \<longleftrightarrow> match_here prev pat (c # cs) \<or>
            (\<exists>j\<le>length cs. match_here (if j = 0 then Some c else Some (cs ! (j - 1))) pat (drop j cs))"
    (is "?L \<longleftrightarrow> ?A \<or> ?B")
  proof
    assume ?L
    then obtain i where i: "i \<le> length (c # cs)"
      "match_here (if i = 0 then prev else Some ((c # cs) ! (i - 1))) pat (drop i (c # cs))" by blast
    show "?A \<or> ?B"
    proof (cases i)
      case 0
      with i show ?thesis by simp
    next
      case (Suc j)
      with i have "j \<le> length cs" by simp
      moreover from i Suc have "match_here (if j = 0 then Some c else Some (cs ! (j - 1))) pat (drop j cs)"
        by (cases j) simp_all
      ultimately show ?thesis by blast
    qed
  next
    assume "?A \<or> ?B"
    then show ?L
    proof
      assume ?A
      then show ?L by (intro exI [of _ 0]) simp
    next
      assume ?B
      then obtain j where j: "j \<le> length cs"
        "match_here (if j = 0 then Some c else Some (cs ! (j - 1))) pat (drop j cs)" by blast
      then have "match_here (if Suc j = 0 then prev else Some ((c # cs) ! (Suc j - 1))) pat (drop (Suc j) (c # cs))"
        by (cases j) simp_all
      with j(1) show ?L by (intro exI [of _ "Suc j"]) simp
    qed
  qed
  with Cons.IH [of "Some c"] show ?case by simp
qed

lemma match_here_word_ended:
  assumes "word_ended pat" and "match_here prev pat t"
  shows "take (length pat) t = pat \<and> \<not> wordc prev \<and> \<not> wordc (headc (drop (length pat) t))"
proof -
  from assms(2) have tk: "take (length pat) t = pat"
    and b1: "boundary prev (headc t)"
    and b2: "boundary (lastc prev pat) (headc (drop (length pat) t))"
    by (simp_all add: match_here_def)
  from assms(1) have ne: "pat \<noteq> []" and h: "is_word (hd pat)" and l: "is_word (last pat)"
    by (simp_all add: word_ended_def)
  from tk ne obtain c cs where t: "t = c # cs" by (cases t) auto
  with tk ne have "c = hd pat" by (cases pat) auto
  with t h b1 have "\<not> wordc prev" by (simp add: boundary_def)
  moreover from ne l b2 have "\<not> wordc (headc (drop (length pat) t))"
    by (simp add: boundary_def lastc_def)
  ultimately show ?thesis using tk by simp
qed

lemma headc_drop: "i < length s \<Longrightarrow> headc (drop i s) = Some (s ! i)"
  by (induction s arbitrary: i) (auto simp: less_Suc_eq_0_disj)

lemma no_search_inside_words:
  assumes "word_ended pat" and "only_inside_words pat s"
  shows "\<not> re_search pat s"
proof
  assume "re_search pat s"
  then obtain i where i: "i \<le> length s"
    and m: "match_here (if i = 0 then None else Some (s ! (i - 1))) pat (drop i s)"
    by (auto simp: re_search_def re_search_from_iff)
  from match_here_word_ended [OF assms(1) m]
  have tk: "take (length pat) (drop i s) = pat"
    and p: "\<not> wordc (if i = 0 then None else Some (s ! (i - 1)))"
    and n: "\<not> wordc (headc (drop (length pat) (drop i s)))" by simp_all
  from tk have "length (take (length pat) (drop i s)) = length pat" by simp
  then have "length pat \<le> length (drop i s)" by simp
  with i have le: "i + length pat \<le> length s" by simp
  with tk have "occurs_at pat s i" by (simp add: occurs_at_def)
  with assms(2) i have "inside_word s i (length pat)"
    by (cases "i = length s") (auto simp: only_inside_words_def list_all_iff)
  then show False
  proof (unfold inside_word_def, elim disjE conjE)
    assume "0 < i" "is_word (s ! (i - 1))"
    with p show False by simp
  next
    assume lt: "i + length pat < length s" and w: "is_word (s ! (i + length pat))"
    from lt have "headc (drop (i + length pat) s) = Some (s ! (i + length pat))" by (rule headc_drop)
    with n w show False by (simp add: add.commute)
  qed
qed

text \<open>
  Claim C6, as stated: a synonym that occurs in the input only as a substring of a
  larger word triggers neither detection of its skill nor replacement of that
  occurrence. It fails: with the map
  \<open>{"Java Script": ["JavaScript"], "Java SE": ["Java"]}\<close> and the text
  \<open>"JavaScript developer"\<close>, the first entry rewrites the text to
  \<open>java script developer\<close>, where \<open>java\<close> is a whole word; the synonym \<open>Java\<close>
  then matches, \<open>java se\<close> is detected and the text is rewritten again. Without that
  synonym in the map neither happens.
\<close>

theorem whole_word_boundary_counterexample:
  "plain_map [(''Java Script'', [''JavaScript'']), (''Java SE'', [''Java''])] \<and>
   word_ended (lower ''Java'') \<and>
   only_inside_words (lower ''Java'') (lower ''JavaScript developer'') \<and>
   normalize_text ''JavaScript developer''
       [(''Java Script'', [''JavaScript'']), (''Java SE'', [''Java''])]
     = (''java se script developer'', {''java script'', ''java se''}) \<and>
   normalize_text ''JavaScript developer''
       [(''Java Script'', [''JavaScript'']), (''Java SE'', [])]
     = (''java script developer'', {''java script''})"
  by code_simp

text \<open>
  Claim C6, amended: a synonym that begins and ends with a word character (so that both
  word boundaries apply) and occurs only inside larger words, as \<open>java\<close> does in
  \<open>javascript\<close>, in the working text at the moment it is tried (the lower-cased input
  after the rewrites made before it; the lower-cased input itself for the first synonym
  of the first entry) is not found by the search; its step of the loop leaves the text
  and the detected set as they are; and the result of \<open>normalize_text\<close> is the one of
  the map without that synonym. Canonical names are plain.
\<close>

theorem whole_word_boundary:
  assumes "plain_map (M1 @ (S, syns1 @ syn # syns2) # M2)"
    and "word_ended (lower syn)"
    and "txt = fst (foldl (syn_step S) (normalize_text text M1) syns1)"
    and "only_inside_words (lower syn) txt"
  shows "\<not> re_search (lower syn) txt \<and>
         syn_step S (foldl (syn_step S) (normalize_text text M1) syns1) syn
           = foldl (syn_step S) (normalize_text text M1) syns1 \<and>
         normalize_text text (M1 @ (S, syns1 @ syn # syns2) # M2)
           = normalize_text text (M1 @ (S, syns1 @ syns2) # M2)"
proof -
  let ?st = "foldl (syn_step S) (normalize_text text M1) syns1"
  have ns: "\<not> re_search (lower syn) txt" using assms(2,4) by (rule no_search_inside_words)
  then have st: "syn_step S ?st syn = ?st"
    by (simp add: syn_step_def Let_def assms(3))
  then have "foldl (syn_step S) (normalize_text text M1) (syns1 @ syn # syns2)
               = foldl (syn_step S) (normalize_text text M1) (syns1 @ syns2)" by simp
  then have "entry_step (normalize_text text M1) (S, syns1 @ syn # syns2)
               = entry_step (normalize_text text M1) (S, syns1 @ syns2)"
    by (simp add: entry_step_def Let_def)
  then have "normalize_text text (M1 @ (S, syns1 @ syn # syns2) # M2)
           = normalize_text text (M1 @ (S, syns1 @ syns2) # M2)"
    by (simp only: normalize_text_append)
  with ns st show ?thesis by blast
qed

theorem whole_word_boundary_witness:
  "plain_map ([(''Active Directory'', [''AD''])] @ (''Java SE'', [''jdk''] @ ''Java'' # []) # []) \<and>
   word_ended (lower ''Java'') \<and>
   ''active directory admin, javascript developer''
     = fst (foldl (syn_step ''Java SE'')
              (normalize_text ''AD admin, JavaScript developer'' [(''Active Directory'', [''AD''])])
              [''jdk'']) \<and>
   only_inside_words (lower ''Java'') ''active directory admin, javascript developer'' \<and>
   \<not> re_search (lower ''Java'') ''active directory admin, javascript developer'' \<and>
   normalize_text ''AD admin, JavaScript developer''
       ([(''Active Directory'', [''AD''])] @ (''Java SE'', [''jdk''] @ ''Java'' # []) # [])
     = (''active directory admin, javascript developer'', {''active directory''})"
proof -
  have h1: "plain_map ([(''Active Directory'', [''AD''])] @ (''Java SE'', [''jdk''] @ ''Java'' # []) # [])"
    by code_simp
  have h2: "word_ended (lower ''Java'')" by code_simp
  have h3: "''active directory admin, javascript developer''
     = fst (foldl (syn_step ''Java SE'')
              (normalize_text ''AD admin, JavaScript developer'' [(''Active Directory'', [''AD''])])
              [''jdk''])"
    by code_simp
  have h4: "only_inside_words (lower ''Java'') ''active directory admin, javascript developer''"
    by code_simp
  have v: "normalize_text ''AD admin, JavaScript developer''
       ([(''Active Directory'', [''AD''])] @ (''Java SE'', [''jdk''] @ []) # [])
     = (''active directory admin, javascript developer'', {''active directory''})"
    by code_simp
  from whole_word_boundary [OF h1 h2 h3 h4] h1 h2 h3 h4 v show ?thesis by simp
qed

subsection \<open>Detection\<close>

text \<open>For a name that begins and ends with a word character, standing as a whole word is what the search tests.\<close>

lemma search_whole_word:
  assumes we: "word_ended pat" and ww: "whole_word_in pat s"
  shows "re_search pat s"
proof -
  from ww have "\<exists>i \<in> set [0..<Suc (length s)]. occurs_at pat s i \<and> \<not> inside_word s i (length pat)"
    by (simp only: whole_word_in_def list_ex_iff)
  then obtain i where "i \<in> set [0..<Suc (length s)]" and occ: "occurs_at pat s i"
    and free: "\<not> inside_word s i (length pat)" by blast
  then have i: "i \<le> length s" by (simp del: upt_Suc)
  from we have ne: "pat \<noteq> []" and h: "is_word (hd pat)" and l: "is_word (last pat)"
    by (simp_all add: word_ended_def)
  let ?prev = "if i = 0 then None else Some (s ! (i - 1))"
  from occ have tk: "take (length pat) (drop i s) = pat" and le: "i + length pat \<le> length s"
    by (simp_all add: occurs_at_def)
  from tk ne obtain c cs where t: "drop i s = c # cs" by (cases "drop i s") auto
  with tk ne have "c = hd pat" by (cases pat) auto
  with h t have hw: "wordc (headc (drop i s))" by simp
  from free have np: "\<not> wordc ?prev" by (auto simp: inside_word_def)
  have nn: "\<not> wordc (headc (drop (length pat) (drop i s)))"
  proof (cases "i + length pat < length s")
    case True
    then have "headc (drop (i + length pat) s) = Some (s ! (i + length pat))" by (rule headc_drop)
    moreover from free True have "\<not> is_word (s ! (i + length pat))" by (simp add: inside_word_def)
    ultimately show ?thesis by (simp add: add.commute)
  next
    case False
    with le have "drop (length pat) (drop i s) = []" by simp
    then show ?thesis by simp
  qed
  from ne l have lw: "wordc (lastc ?prev pat)" by (simp add: lastc_def)
  have "match_here ?prev pat (drop i s)"
    unfolding match_here_def boundary_def using tk hw np nn lw by blast
  with i show ?thesis unfolding re_search_def re_search_from_iff by blast
qed

text \<open>
  Claim C1, as stated: whenever a synonym of a canonical skill \<open>S\<close> of the map appears
  as a whole word in the input, \<open>S\<close> (lower-cased) is in the detected set. It fails:
  with the map \<open>{"Active Directory": ["AD"], "Azure AD": ["AD", "Entra ID"]}\<close> and the
  text \<open>"We use AD"\<close>, the first entry rewrites \<open>ad\<close> before the second entry is
  reached, and \<open>azure ad\<close> is not detected.
\<close>

theorem detection_monotonicity_counterexample:
  "plain_map [(''Active Directory'', [''AD'']), (''Azure AD'', [''AD'', ''Entra ID''])] \<and>
   ''AD'' \<in> set [''AD'', ''Entra ID''] \<and>
   word_ended (lower ''AD'') \<and>
   whole_word_in (lower ''AD'') (lower ''We use AD'') \<and>
   re_search (lower ''AD'') (lower ''We use AD'') \<and>
   lower ''Azure AD'' \<notin> snd (normalize_text ''We use AD''
       [(''Active Directory'', [''AD'']), (''Azure AD'', [''AD'', ''Entra ID''])])"
  by code_simp

text \<open>
  Claim C1, amended: if a synonym of \<open>S\<close> that begins and ends with a word character
  stands as a whole word (has an occurrence that no word character touches) in the
  working text at the moment the entry of \<open>S\<close> is reached (the lower-cased input after
  the rewrites of the entries before \<open>S\<close>, which is the lower-cased input itself for
  the first entry), then \<open>S\<close> (lower-cased) is in the detected set. Canonical names
  are plain.
\<close>

theorem detection_at_entry:
  assumes "plain_map (M1 @ (S, syns) # M2)"
    and "syn \<in> set syns"
    and "word_ended (lower syn)"
    and "whole_word_in (lower syn) (fst (normalize_text text M1))"
  shows "lower S \<in> snd (normalize_text text (M1 @ (S, syns) # M2))"
proof -
  have "re_search (lower syn) (fst (normalize_text text M1))"
    using assms(3,4) by (rule search_whole_word)
  with assms(2) have "lower S \<in> snd (entry_step (normalize_text text M1) (S, syns))"
    by (rule entry_step_syn_hit)
  then show ?thesis by (rule detected_after_entry)
qed

theorem detection_at_entry_witness:
  "plain_map ([(''Active Directory'', [''AD''])] @ (''Terraform'', [''tf'', ''HCL'']) # []) \<and>
   ''HCL'' \<in> set [''tf'', ''HCL''] \<and>
   word_ended (lower ''HCL'') \<and>
   whole_word_in (lower ''HCL'')
     (fst (normalize_text ''AD and HCL'' [(''Active Directory'', [''AD''])])) \<and>
   lower ''Terraform'' \<in> snd (normalize_text ''AD and HCL''
       ([(''Active Directory'', [''AD''])] @ (''Terraform'', [''tf'', ''HCL'']) # []))"
proof -
  have h1: "plain_map ([(''Active Directory'', [''AD''])] @ (''Terraform'', [''tf'', ''HCL'']) # [])"
    by code_simp
  have h2: "''HCL'' \<in> set [''tf'', ''HCL'']" by simp
  have h3: "word_ended (lower ''HCL'')" by code_simp
  have h4: "whole_word_in (lower ''HCL'')
              (fst (normalize_text ''AD and HCL'' [(''Active Directory'', [''AD''])]))"
    by code_simp
  from detection_at_entry [OF h1 h2 h3 h4] h1 h2 h3 h4 show ?thesis by blast
qed

text \<open>
  Claim C8, as stated: whenever a canonical name appears as a whole word in the input
  (case-insensitively), it is detected. It fails: with the map
  \<open>{"Active Directory": ["AD"], "Azure AD": ["Entra ID"]}\<close> and the text
  \<open>"Azure AD admin"\<close>, the first entry rewrites the \<open>ad\<close> of \<open>azure ad\<close>, and the
  canonical name \<open>azure ad\<close> is gone when its own entry is reached.
\<close>

theorem canonical_detector_counterexample:
  "plain_map [(''Active Directory'', [''AD'']), (''Azure AD'', [''Entra ID''])] \<and>
   word_ended (lower ''Azure AD'') \<and>
   whole_word_in (lower ''Azure AD'') (lower ''Azure AD admin'') \<and>
   re_search (lower ''Azure AD'') (lower ''Azure AD admin'') \<and>
   lower ''Azure AD'' \<notin> snd (normalize_text ''Azure AD admin''
       [(''Active Directory'', [''AD'']), (''Azure AD'', [''Entra ID''])])"
  by code_simp

text \<open>
  Claim C8, amended: if the canonical name of \<open>S\<close> begins and ends with a word
  character and stands as a whole word (has an occurrence that no word character
  touches, compared in lower case) in the working text at the moment the entry of \<open>S\<close>
  is reached (the lower-cased input for the first entry), then \<open>S\<close> is detected,
  whether or not a synonym of it appears. Canonical names are plain.
\<close>

theorem canonical_detected_at_entry:
  assumes "plain_map (M1 @ (S, syns) # M2)"
    and "word_ended (lower S)"
    and "whole_word_in (lower S) (fst (normalize_text text M1))"
  shows "lower S \<in> snd (normalize_text text (M1 @ (S, syns) # M2))"
proof -
  have "re_search (lower S) (fst (normalize_text text M1))"
    using assms(2,3) by (rule search_whole_word)
  then have "lower S \<in> snd (entry_step (normalize_text text M1) (S, syns))"
    by (rule entry_step_canonical_hit)
  then show ?thesis by (rule detected_after_entry)
qed

theorem canonical_detected_at_entry_witness:
  "plain_map ([(''Active Directory'', [''AD''])] @ (''Terraform'', [''tf'']) # []) \<and>
   word_ended (lower ''Terraform'') \<and>
   whole_word_in (lower ''Terraform'')
     (fst (normalize_text ''AD with Terraform'' [(''Active Directory'', [''AD''])])) \<and>
   lower ''Terraform'' \<in> snd (normalize_text ''AD with Terraform''
       ([(''Active Directory'', [''AD''])] @ (''Terraform'', [''tf'']) # []))"
proof -
  have h1: "plain_map ([(''Active Directory'', [''AD''])] @ (''Terraform'', [''tf'']) # [])"
    by code_simp
  have h2: "word_ended (lower ''Terraform'')" by code_simp
  have h3: "whole_word_in (lower ''Terraform'')
              (fst (normalize_text ''AD with Terraform'' [(''Active Directory'', [''AD''])]))"
    by code_simp
  from canonical_detected_at_entry [OF h1 h2 h3] h1 h2 h3 show ?thesis by blast
qed

subsection \<open>Normalising twice\<close>

lemma lower_char_fixed: "lower_char (lower_char c) = lower_char c"
  by (simp add: lower_char_def)

lemma set_re_sub_from: "set (re_sub_from prev pat repl s) \<subseteq> set repl \<union> set s"
proof (induction prev pat repl s rule: re_sub_from.induct)
  case (1 prev pat repl s)
  show ?case
  proof (cases "match_here prev pat s")
    case True
    show ?thesis
    proof (cases "pat = []")
      case e: True
      show ?thesis
      proof (cases s)
        case Nil
        with True e show ?thesis by (subst re_sub_from.simps) simp
      next
        case (Cons c cs)
        from "1.IH"(1) [OF True e Cons] have "set (re_sub_from (Some c) pat repl cs) \<subseteq> set repl \<union> set cs" .
        with True e Cons show ?thesis by (subst re_sub_from.simps) auto
      qed
    next
      case ne: False
      have "set (drop (length pat) s) \<subseteq> set s" by (rule set_drop_subset)
      with "1.IH"(2) [OF True ne]
      have "set (re_sub_from (Some (last pat)) pat repl (drop (length pat) s)) \<subseteq> set repl \<union> set s"
        by blast
      with True ne show ?thesis by (subst re_sub_from.simps) auto
    qed
  next
    case False
    show ?thesis
    proof (cases s)
      case Nil
      with False show ?thesis by (subst re_sub_from.simps) simp
    next
      case (Cons c cs)
      from "1.IH"(3) [OF False Cons] have "set (re_sub_from (Some c) pat repl cs) \<subseteq> set repl \<union> set cs" .
      with False Cons show ?thesis by (subst re_sub_from.simps) auto
    qed
  qed
qed

lemma lowered_lower: "lowered (lower s)"
  by (simp add: lowered_def lower_def lower_char_fixed)

lemma lower_lowered: "lowered s \<Longrightarrow> lower s = s"
  by (simp add: lowered_def lower_def map_idI)

lemma lowered_re_sub: "lowered repl \<Longrightarrow> lowered s \<Longrightarrow> lowered (re_sub pat repl s)"
  using set_re_sub_from [of None pat repl s] by (auto simp: lowered_def re_sub_def)

lemma lowered_syn_step: "lowered (fst st) \<Longrightarrow> lowered (fst (syn_step c st syn))"
  by (simp add: syn_step_def Let_def lowered_re_sub lowered_lower)

lemma lowered_foldl_syn: "lowered (fst st) \<Longrightarrow> lowered (fst (foldl (syn_step c) st syns))"
  by (induction syns arbitrary: st) (simp_all add: lowered_syn_step)

lemma lowered_entry_step: "lowered (fst st) \<Longrightarrow> lowered (fst (entry_step st e))"
  by (simp add: entry_step_def Let_def lowered_foldl_syn)

lemma lowered_foldl_entry: "lowered (fst st) \<Longrightarrow> lowered (fst (foldl entry_step st M))"
  by (induction M arbitrary: st) (simp_all add: lowered_entry_step)

lemma lowered_normalize_text: "lowered (fst (normalize_text t M))"
  by (simp add: normalize_text_def lowered_foldl_entry lowered_lower)

subsection \<open>Words of a text\<close>

lemma word_tokens_Nil: "word_tokens [] = []"
  by (subst word_tokens.simps) simp

lemma word_tokens_nonword: "\<not> is_word c \<Longrightarrow> word_tokens (c # cs) = word_tokens cs"
  by (subst word_tokens.simps) simp

lemma word_tokens_word:
  "s \<noteq> [] \<Longrightarrow> is_word (hd s) \<Longrightarrow>
   word_tokens s = takeWhile is_word s # word_tokens (dropWhile is_word s)"
  by (subst word_tokens.simps) simp

lemma take_drop_sep:
  "y = [] \<or> \<not> P (hd y) \<Longrightarrow>
   takeWhile P (x @ y) = takeWhile P x \<and> dropWhile P (x @ y) = dropWhile P x @ y"
  by (induction x) (cases y, auto)+

lemma word_tokens_append:
  assumes "y = [] \<or> \<not> is_word (hd y)"
  shows "word_tokens (x @ y) = word_tokens x @ word_tokens y"
proof (induction x rule: word_tokens.induct)
  case (1 x)
  show ?case
  proof (cases "x = []")
    case True
    then show ?thesis by (simp add: word_tokens_Nil)
  next
    case ne: False
    show ?thesis
    proof (cases "is_word (hd x)")
      case True
      from take_drop_sep [where P = is_word and x = x and y = y, OF assms]
      have tk: "takeWhile is_word (x @ y) = takeWhile is_word x"
        and dr: "dropWhile is_word (x @ y) = dropWhile is_word x @ y" by simp_all
      from ne True have "word_tokens (x @ y) = takeWhile is_word (x @ y) # word_tokens (dropWhile is_word (x @ y))"
        by (intro word_tokens_word) simp_all
      also have "\<dots> = takeWhile is_word x # (word_tokens (dropWhile is_word x) @ word_tokens y)"
        using "1.IH"(1) [OF ne True] by (simp add: tk dr)
      also have "\<dots> = word_tokens x @ word_tokens y"
        using word_tokens_word [OF ne True] by simp
      finally show ?thesis .
    next
      case False
      from ne obtain c cs where x: "x = c # cs" by (cases x) auto
      with False have nw: "\<not> is_word c" by simp
      from "1.IH"(2) [OF ne False] x have "word_tokens (cs @ y) = word_tokens cs @ word_tokens y" by simp
      with nw x show ?thesis by (simp add: word_tokens_nonword)
    qed
  qed
qed

lemma word_tokens_single: "single_word p \<Longrightarrow> word_tokens p = [p]"
proof -
  assume sw: "single_word p"
  then have ne: "p \<noteq> []" and all: "\<forall>c \<in> set p. is_word c" by (simp_all add: single_word_def list_all_iff)
  from ne all have hw: "is_word (hd p)" by (cases p) auto
  have 1: "word_tokens p = takeWhile is_word p # word_tokens (dropWhile is_word p)"
    using ne hw by (rule word_tokens_word)
  from all have 2: "takeWhile is_word p = p" by simp
  from all have 3: "dropWhile is_word p = []" by simp
  show ?thesis unfolding 1 unfolding 2 3 by (simp only: word_tokens_Nil)
qed

lemma word_run:
  assumes "s \<noteq> []" and "is_word (hd s)"
  shows "single_word (takeWhile is_word s)
       \<and> s = takeWhile is_word s @ dropWhile is_word s
       \<and> (dropWhile is_word s = [] \<or> \<not> is_word (hd (dropWhile is_word s)))"
proof -
  from assms have "takeWhile is_word s \<noteq> []" by (cases s) auto
  moreover have "\<forall>c \<in> set (takeWhile is_word s). is_word c" by (auto dest: set_takeWhileD)
  moreover have "dropWhile is_word s = [] \<or> \<not> is_word (hd (dropWhile is_word s))"
    by (metis hd_dropWhile)
  ultimately show ?thesis by (simp add: single_word_def list_all_iff)
qed

subsection \<open>Matching a single word\<close>

lemma single_word_facts:
  assumes "single_word p"
  shows "p \<noteq> []" and "is_word (hd p)" and "is_word (last p)" and "\<forall>c \<in> set p. is_word c"
  using assms by (auto simp: single_word_def list_all_iff)

lemma no_match_Nil: "single_word p \<Longrightarrow> \<not> match_here prev p []"
  by (auto simp: match_here_def single_word_def)

lemma no_match_nonword: "single_word p \<Longrightarrow> \<not> is_word c \<Longrightarrow> \<not> match_here prev p (c # cs)"
proof
  assume sw: "single_word p" and nw: "\<not> is_word c" and m: "match_here prev p (c # cs)"
  from m have "take (length p) (c # cs) = p" by (simp add: match_here_def)
  with single_word_facts(1) [OF sw] have "hd p = c" by (cases p) auto
  with single_word_facts(2) [OF sw] nw show False by simp
qed

lemma no_match_mid: "single_word p \<Longrightarrow> wordc prev \<Longrightarrow> is_word c \<Longrightarrow> \<not> match_here prev p (c # cs)"
  by (simp add: match_here_def boundary_def)

lemma match_token:
  assumes sw: "single_word p" and np: "\<not> wordc prev" and ne: "s \<noteq> []" and hw: "is_word (hd s)"
  shows "match_here prev p s \<longleftrightarrow> takeWhile is_word s = p"
proof
  assume m: "match_here prev p s"
  then have tk: "take (length p) s = p"
    and b2: "boundary (lastc prev p) (headc (drop (length p) s))" by (simp_all add: match_here_def)
  from single_word_facts [OF sw] b2 have nn: "\<not> wordc (headc (drop (length p) s))"
    by (simp add: boundary_def lastc_def)
  then have sep: "drop (length p) s = [] \<or> \<not> is_word (hd (drop (length p) s))"
    by (cases "drop (length p) s") auto
  have "s = p @ drop (length p) s" using tk by (metis append_take_drop_id)
  then have "takeWhile is_word s = takeWhile is_word (p @ drop (length p) s)" by simp
  also have "\<dots> = takeWhile is_word p"
    using take_drop_sep [where P = is_word and x = p and y = "drop (length p) s", OF sep] by simp
  also have "\<dots> = p" using single_word_facts(4) [OF sw] by simp
  finally show "takeWhile is_word s = p" .
next
  assume w: "takeWhile is_word s = p"
  from word_run [OF ne hw] w
  have s: "s = p @ dropWhile is_word s"
    and sep: "dropWhile is_word s = [] \<or> \<not> is_word (hd (dropWhile is_word s))" by simp_all
  from s have tk: "take (length p) s = p" by (metis append_eq_conv_conj)
  from s have dr: "drop (length p) s = dropWhile is_word s" by (metis append_eq_conv_conj)
  from ne hw have h: "wordc (headc s)" by (cases s) auto
  have nn: "\<not> wordc (headc (drop (length p) s))"
  proof (cases "dropWhile is_word s")
    case Nil
    then show ?thesis by (simp only: dr) simp
  next
    case (Cons d ds)
    with sep have "\<not> is_word d" by simp
    with Cons show ?thesis by (simp only: dr) simp
  qed
  from single_word_facts [OF sw] have lw: "wordc (lastc prev p)" by (simp add: lastc_def)
  show "match_here prev p s"
    unfolding match_here_def boundary_def using tk h np nn lw by blast
qed

lemma lastc_Cons: "lastc prev (c # u) = lastc (Some c) u"
  by (simp add: lastc_def)

lemma search_mid:
  assumes "single_word p"
  shows "wordc prev \<Longrightarrow> \<forall>c \<in> set u. is_word c \<Longrightarrow>
         re_search_from prev p (u @ rest) = re_search_from (lastc prev u) p rest"
proof (induction u arbitrary: prev)
  case Nil
  show ?case by (simp add: lastc_def)
next
  case (Cons c u)
  from Cons.prems have c: "is_word c" and u: "\<forall>c \<in> set u. is_word c" by simp_all
  from no_match_mid [OF assms Cons.prems(1) c]
  have "re_search_from prev p ((c # u) @ rest) = re_search_from (Some c) p (u @ rest)" by simp
  also have "\<dots> = re_search_from (lastc (Some c) u) p rest"
    using c u by (intro Cons.IH) simp_all
  finally show ?case by (simp only: lastc_Cons)
qed

lemma search_tokens:
  assumes sw: "single_word p"
  shows "\<not> wordc prev \<or> s = [] \<or> \<not> is_word (hd s) \<Longrightarrow>
         re_search_from prev p s \<longleftrightarrow> p \<in> set (word_tokens s)"
proof (induction s arbitrary: prev rule: word_tokens.induct)
  case (1 s)
  show ?case
  proof (cases "s = []")
    case True
    with no_match_Nil [OF sw] show ?thesis by (simp add: word_tokens_Nil)
  next
    case ne: False
    then obtain c cs where s: "s = c # cs" by (cases s) auto
    show ?thesis
    proof (cases "is_word (hd s)")
      case True
      with "1.prems" ne have np: "\<not> wordc prev" by simp
      let ?w = "takeWhile is_word s" and ?rest = "dropWhile is_word s"
      from word_run [OF ne True] have run: "single_word ?w" and split: "s = ?w @ ?rest"
        and sep: "?rest = [] \<or> \<not> is_word (hd ?rest)" by simp_all
      from s True have w: "?w = c # takeWhile is_word cs" and cw: "is_word c" by simp_all
      have tw: "\<forall>x \<in> set (takeWhile is_word cs). is_word x" by (auto dest: set_takeWhileD)
      from s True have cs: "cs = takeWhile is_word cs @ ?rest" by simp
      have "re_search_from prev p s \<longleftrightarrow> match_here prev p s \<or> re_search_from (Some c) p cs"
        by (simp add: s)
      also have "re_search_from (Some c) p cs
                   = re_search_from (Some c) p (takeWhile is_word cs @ ?rest)"
        using cs by simp
      also have "\<dots> = re_search_from (lastc (Some c) (takeWhile is_word cs)) p ?rest"
        using cw tw by (intro search_mid [OF sw]) simp_all
      also have "\<dots> \<longleftrightarrow> p \<in> set (word_tokens ?rest)"
        using sep by (intro "1.IH"(1) [OF ne True]) simp
      finally have "re_search_from prev p s \<longleftrightarrow> ?w = p \<or> p \<in> set (word_tokens ?rest)"
        by (simp add: match_token [OF sw np ne True])
      then show ?thesis using word_tokens_word [OF ne True] by auto
    next
      case False
      with s have nw: "\<not> is_word c" by simp
      from "1.IH"(2) [OF ne False, of "Some c"] s nw
      have "re_search_from (Some c) p cs \<longleftrightarrow> p \<in> set (word_tokens cs)" by simp
      with no_match_nonword [OF sw nw] s nw show ?thesis by (simp add: word_tokens_nonword)
    qed
  qed
qed

lemma re_search_single_word:
  "single_word p \<Longrightarrow> re_search p s \<longleftrightarrow> p \<in> set (word_tokens s)"
  unfolding re_search_def by (rule search_tokens) simp_all

subsection \<open>Replacing a single word\<close>

lemma sub_Nil: "single_word p \<Longrightarrow> re_sub_from prev p r [] = []"
  using no_match_Nil [of p prev] by (subst re_sub_from.simps) simp

lemma sub_nonword:
  "single_word p \<Longrightarrow> \<not> is_word c \<Longrightarrow>
   re_sub_from prev p r (c # cs) = c # re_sub_from (Some c) p r cs"
  using no_match_nonword [of p c prev cs] by (subst re_sub_from.simps) simp

lemma sub_mid:
  assumes "single_word p"
  shows "wordc prev \<Longrightarrow> \<forall>c \<in> set u. is_word c \<Longrightarrow>
         re_sub_from prev p r (u @ rest) = u @ re_sub_from (lastc prev u) p r rest"
proof (induction u arbitrary: prev)
  case Nil
  show ?case by (simp add: lastc_def)
next
  case (Cons c u)
  from Cons.prems have c: "is_word c" and u: "\<forall>c \<in> set u. is_word c" by simp_all
  from no_match_mid [OF assms Cons.prems(1) c, of "u @ rest"]
  have "re_sub_from prev p r ((c # u) @ rest) = c # re_sub_from (Some c) p r (u @ rest)"
    by (subst re_sub_from.simps) simp
  also have "re_sub_from (Some c) p r (u @ rest) = u @ re_sub_from (lastc (Some c) u) p r rest"
    using c u by (intro Cons.IH) simp_all
  finally show ?case by (simp only: lastc_Cons) simp
qed

lemma sub_token:
  assumes sw: "single_word p" and np: "\<not> wordc prev" and ne: "s \<noteq> []" and hw: "is_word (hd s)"
  shows "re_sub_from prev p r s =
           (if takeWhile is_word s = p then r else takeWhile is_word s)
           @ re_sub_from (Some (last (takeWhile is_word s))) p r (dropWhile is_word s)"
proof (cases "takeWhile is_word s = p")
  case True
  then have m: "match_here prev p s" by (simp add: match_token [OF sw np ne hw])
  from word_run [OF ne hw] True have "s = p @ dropWhile is_word s" by simp
  then have "drop (length p) s = dropWhile is_word s" by (metis append_eq_conv_conj)
  with m single_word_facts(1) [OF sw] True show ?thesis
    by (subst re_sub_from.simps) simp
next
  case False
  then have m: "\<not> match_here prev p s" by (simp add: match_token [OF sw np ne hw])
  from ne obtain c cs where s: "s = c # cs" by (cases s) auto
  with hw have cw: "is_word c" by simp
  have tw: "\<forall>x \<in> set (takeWhile is_word cs). is_word x" by (auto dest: set_takeWhileD)
  from s cw have w: "takeWhile is_word s = c # takeWhile is_word cs"
    and r: "dropWhile is_word s = dropWhile is_word cs" by simp_all
  from m s have "re_sub_from prev p r s = c # re_sub_from (Some c) p r cs"
    by (subst re_sub_from.simps) simp
  also have "re_sub_from (Some c) p r cs
               = re_sub_from (Some c) p r (takeWhile is_word cs @ dropWhile is_word cs)" by simp
  also have "\<dots> = takeWhile is_word cs
                   @ re_sub_from (lastc (Some c) (takeWhile is_word cs)) p r (dropWhile is_word cs)"
    using cw tw by (intro sub_mid [OF sw]) simp_all
  also have "lastc (Some c) (takeWhile is_word cs) = Some (last (takeWhile is_word s))"
    by (simp add: w lastc_def)
  finally show ?thesis using False by (simp add: w r)
qed

lemma sub_head:
  assumes "single_word p" and "s = [] \<or> \<not> is_word (hd s)"
  shows "re_sub_from prev p r s = [] \<or> \<not> is_word (hd (re_sub_from prev p r s))"
proof (cases s)
  case Nil
  with sub_Nil [OF assms(1)] show ?thesis by simp
next
  case (Cons c cs)
  with assms(2) have "\<not> is_word c" by simp
  with sub_nonword [OF assms(1) this] Cons show ?thesis by simp
qed

lemma sub_tokens:
  assumes sw: "single_word p"
  shows "\<not> wordc prev \<or> s = [] \<or> \<not> is_word (hd s) \<Longrightarrow>
         set (word_tokens (re_sub_from prev p r s))
           \<subseteq> (set (word_tokens s) - {p}) \<union> set (word_tokens r)"
proof (induction s arbitrary: prev rule: word_tokens.induct)
  case (1 s)
  show ?case
  proof (cases "s = []")
    case True
    with sub_Nil [OF sw] show ?thesis by (simp add: word_tokens_Nil)
  next
    case ne: False
    show ?thesis
    proof (cases "is_word (hd s)")
      case True
      with "1.prems" ne have np: "\<not> wordc prev" by simp
      let ?w = "takeWhile is_word s" and ?rest = "dropWhile is_word s"
      let ?X = "re_sub_from (Some (last ?w)) p r ?rest"
      from word_run [OF ne True] have run: "single_word ?w"
        and sep: "?rest = [] \<or> \<not> is_word (hd ?rest)" by simp_all
      have X: "?X = [] \<or> \<not> is_word (hd ?X)" using sw sep by (rule sub_head)
      have IH: "set (word_tokens ?X) \<subseteq> (set (word_tokens ?rest) - {p}) \<union> set (word_tokens r)"
        using sep by (intro "1.IH"(1) [OF ne True]) simp
      have ws: "word_tokens s = ?w # word_tokens ?rest" using ne True by (rule word_tokens_word)
      show ?thesis
      proof (cases "?w = p")
        case eq: True
        then have "re_sub_from prev p r s = r @ ?X" using sub_token [OF sw np ne True] by simp
        then have "word_tokens (re_sub_from prev p r s) = word_tokens r @ word_tokens ?X"
          using word_tokens_append [OF X] by simp
        with IH ws show ?thesis by auto
      next
        case neq: False
        then have "re_sub_from prev p r s = ?w @ ?X" using sub_token [OF sw np ne True] by simp
        then have "word_tokens (re_sub_from prev p r s) = ?w # word_tokens ?X"
          using word_tokens_append [OF X, of ?w] word_tokens_single [OF run] by simp
        with IH ws neq show ?thesis by auto
      qed
    next
      case False
      from ne obtain c cs where s: "s = c # cs" by (cases s) auto
      with False have nw: "\<not> is_word c" by simp
      from "1.IH"(2) [OF ne False, of "Some c"] s nw
      have "set (word_tokens (re_sub_from (Some c) p r cs))
              \<subseteq> (set (word_tokens cs) - {p}) \<union> set (word_tokens r)" by simp
      with sub_nonword [OF sw nw] s nw show ?thesis by (simp add: word_tokens_nonword)
    qed
  qed
qed

lemma re_sub_single_word:
  "single_word p \<Longrightarrow>
   set (word_tokens (re_sub p r s)) \<subseteq> (set (word_tokens s) - {p}) \<union> set (word_tokens r)"
  unfolding re_sub_def by (rule sub_tokens) simp_all

lemma re_sub_from_same: "repl = pat \<Longrightarrow> re_sub_from prev pat repl s = s"
proof (induction prev pat repl s rule: re_sub_from.induct)
  case (1 prev pat repl s)
  note eq = "1.prems"
  show ?case
  proof (cases "match_here prev pat s")
    case True
    show ?thesis
    proof (cases "pat = []")
      case e: True
      show ?thesis
      proof (cases s)
        case Nil
        with True e eq show ?thesis by (subst re_sub_from.simps) simp
      next
        case (Cons c cs)
        from "1.IH"(1) [OF True e Cons eq] have "re_sub_from (Some c) pat repl cs = cs" .
        with True e eq Cons show ?thesis by (subst re_sub_from.simps) simp
      qed
    next
      case ne: False
      from True have "take (length pat) s = pat" by (simp add: match_here_def)
      then have "pat @ drop (length pat) s = s" by (metis append_take_drop_id)
      moreover from "1.IH"(2) [OF True ne eq]
      have "re_sub_from (Some (last pat)) pat repl (drop (length pat) s) = drop (length pat) s" .
      ultimately show ?thesis using True ne eq by (subst re_sub_from.simps) simp
    qed
  next
    case False
    show ?thesis
    proof (cases s)
      case Nil
      with False show ?thesis by (subst re_sub_from.simps) simp
    next
      case (Cons c cs)
      from "1.IH"(3) [OF False Cons eq] have "re_sub_from (Some c) pat repl cs = cs" .
      with False Cons show ?thesis by (subst re_sub_from.simps) simp
    qed
  qed
qed

lemma re_sub_same: "re_sub p p s = s"
  by (simp add: re_sub_def re_sub_from_same)

subsection \<open>A pass over a map with separate vocabulary\<close>

lemma fst_syn_step:
  "fst (syn_step c st syn) =
     (if re_search (lower syn) (fst st) then re_sub (lower syn) (lower c) (fst st) else fst st)"
  by (simp add: syn_step_def Let_def)

lemma fst_entry_step: "fst (entry_step st e) = fst (foldl (syn_step (fst e)) st (snd e))"
  by (simp add: entry_step_def Let_def)

lemma canonical_words_mem:
  "e \<in> set M \<Longrightarrow> set (word_tokens (lower (fst e))) \<subseteq> set (canonical_words M)"
  by (auto simp: canonical_words_def)

lemma separate_mapD:
  assumes "separate_map M" and "e \<in> set M" and "syn \<in> set (snd e)"
  shows "lower syn = lower (fst e) \<or>
         (single_word (lower syn) \<and> lower syn \<notin> set (canonical_words M))"
  using assms by (auto simp: separate_map_def list_all_iff)

lemma syn_step_keeps_out:
  assumes ok: "lower syn = lower c \<or> single_word (lower syn)"
    and cw: "q \<notin> set (word_tokens (lower c))"
    and q: "q \<notin> set (word_tokens (fst st))"
  shows "q \<notin> set (word_tokens (fst (syn_step c st syn)))"
proof (cases "re_search (lower syn) (fst st)")
  case False
  with q show ?thesis by (simp add: fst_syn_step)
next
  case True
  show ?thesis
  proof (cases "lower syn = lower c")
    case same: True
    with q show ?thesis by (simp add: fst_syn_step re_sub_same)
  next
    case False
    with ok have "single_word (lower syn)" by simp
    from re_sub_single_word [OF this, of "lower c" "fst st"] cw q True
    show ?thesis by (auto simp: fst_syn_step)
  qed
qed

lemma syn_step_removes:
  assumes sw: "single_word (lower syn)" and cw: "lower syn \<notin> set (word_tokens (lower c))"
  shows "lower syn \<notin> set (word_tokens (fst (syn_step c st syn)))"
proof (cases "re_search (lower syn) (fst st)")
  case False
  then show ?thesis by (simp add: fst_syn_step re_search_single_word [OF sw])
next
  case True
  from re_sub_single_word [OF sw, of "lower c" "fst st"] cw True
  show ?thesis by (auto simp: fst_syn_step)
qed

lemma foldl_syn_keeps_out:
  assumes "\<forall>syn \<in> set syns. lower syn = lower c \<or> single_word (lower syn)"
    and "q \<notin> set (word_tokens (lower c))"
  shows "q \<notin> set (word_tokens (fst st)) \<Longrightarrow>
         q \<notin> set (word_tokens (fst (foldl (syn_step c) st syns)))"
  using assms(1)
proof (induction syns arbitrary: st)
  case Nil
  then show ?case by simp
next
  case (Cons a syns)
  from Cons.prems have a: "lower a = lower c \<or> single_word (lower a)" by simp
  have "q \<notin> set (word_tokens (fst (syn_step c st a)))"
    using a assms(2) Cons.prems(1) by (rule syn_step_keeps_out)
  then show ?case using Cons.prems by (simp add: Cons.IH)
qed

lemma entry_step_keeps_out:
  assumes "separate_map M" and "e \<in> set M" and "q \<notin> set (canonical_words M)"
    and "q \<notin> set (word_tokens (fst st))"
  shows "q \<notin> set (word_tokens (fst (entry_step st e)))"
proof -
  have "\<forall>syn \<in> set (snd e). lower syn = lower (fst e) \<or> single_word (lower syn)"
    using separate_mapD [OF assms(1,2)] by blast
  moreover have "q \<notin> set (word_tokens (lower (fst e)))"
    using canonical_words_mem [OF assms(2)] assms(3) by blast
  ultimately show ?thesis using assms(4) by (simp add: fst_entry_step foldl_syn_keeps_out)
qed

lemma foldl_entry_keeps_out:
  assumes "separate_map M" and "q \<notin> set (canonical_words M)"
  shows "set es \<subseteq> set M \<Longrightarrow> q \<notin> set (word_tokens (fst st)) \<Longrightarrow>
         q \<notin> set (word_tokens (fst (foldl entry_step st es)))"
proof (induction es arbitrary: st)
  case Nil
  then show ?case by simp
next
  case (Cons e es)
  from Cons.prems have e: "e \<in> set M" and es: "set es \<subseteq> set M" by simp_all
  have "q \<notin> set (word_tokens (fst (entry_step st e)))"
    using assms(1) e assms(2) Cons.prems(2) by (rule entry_step_keeps_out)
  then show ?case using es by (simp add: Cons.IH)
qed

lemma entry_step_removes:
  assumes sep: "separate_map M" and e: "e \<in> set M" and syn: "syn \<in> set (snd e)"
    and fresh: "lower syn \<noteq> lower (fst e)"
  shows "lower syn \<notin> set (word_tokens (fst (entry_step st e)))"
proof -
  from separate_mapD [OF sep e syn] fresh
  have sw: "single_word (lower syn)" and nc: "lower syn \<notin> set (canonical_words M)" by simp_all
  from nc canonical_words_mem [OF e] have cw: "lower syn \<notin> set (word_tokens (lower (fst e)))"
    by blast
  from syn obtain xs ys where split: "snd e = xs @ syn # ys" by (auto dest: split_list)
  have all: "\<forall>a \<in> set ys. lower a = lower (fst e) \<or> single_word (lower a)"
    using separate_mapD [OF sep e] split by auto
  have "lower syn \<notin> set (word_tokens (fst (syn_step (fst e) (foldl (syn_step (fst e)) st xs) syn)))"
    using sw cw by (rule syn_step_removes)
  then have "lower syn \<notin> set (word_tokens
      (fst (foldl (syn_step (fst e)) (syn_step (fst e) (foldl (syn_step (fst e)) st xs) syn) ys)))"
    by (rule foldl_syn_keeps_out [OF all cw])
  then show ?thesis by (simp add: fst_entry_step split)
qed

lemma normalize_text_removes:
  assumes sep: "separate_map M" and e: "e \<in> set M" and syn: "syn \<in> set (snd e)"
    and fresh: "lower syn \<noteq> lower (fst e)"
  shows "lower syn \<notin> set (word_tokens (fst (normalize_text t M)))"
proof -
  from separate_mapD [OF sep e syn] fresh
  have nc: "lower syn \<notin> set (canonical_words M)" by simp
  from e obtain M1 M2 where split: "M = M1 @ e # M2" by (auto dest: split_list)
  then have M2: "set M2 \<subseteq> set M" by auto
  have "lower syn \<notin> set (word_tokens (fst (entry_step (normalize_text t M1) e)))"
    using sep e syn fresh by (rule entry_step_removes)
  then have "lower syn \<notin> set (word_tokens
      (fst (foldl entry_step (entry_step (normalize_text t M1) e) M2)))"
    by (rule foldl_entry_keeps_out [OF sep nc M2])
  then show ?thesis by (simp add: split normalize_text_append)
qed

lemma fresh_synonyms_gone_normalize:
  assumes "separate_map M"
  shows "fresh_synonyms_gone M (fst (normalize_text t M))"
  unfolding fresh_synonyms_gone_def list_all_iff
proof (intro ballI)
  fix e syn assume e: "e \<in> set M" and syn: "syn \<in> set (snd e)"
  show "lower syn = lower (fst e) \<or> lower syn \<notin> set (word_tokens (fst (normalize_text t M)))"
    using normalize_text_removes [OF assms e syn, of t] by blast
qed

subsection \<open>The second pass\<close>

lemma syn_step_fixed:
  "lower syn = lower c \<or> \<not> re_search (lower syn) (fst st) \<Longrightarrow> fst (syn_step c st syn) = fst st"
  by (auto simp: fst_syn_step re_sub_same)

lemma foldl_syn_fixed:
  "\<forall>syn \<in> set syns. lower syn = lower c \<or> \<not> re_search (lower syn) (fst st) \<Longrightarrow>
   fst (foldl (syn_step c) st syns) = fst st"
proof (induction syns arbitrary: st)
  case Nil
  show ?case by simp
next
  case (Cons a syns)
  from Cons.prems have 1: "fst (syn_step c st a) = fst st" by (simp add: syn_step_fixed)
  with Cons.prems have "fst (foldl (syn_step c) (syn_step c st a) syns) = fst (syn_step c st a)"
    by (intro Cons.IH) simp
  with 1 show ?case by simp
qed

lemma foldl_entry_text_fixed:
  "\<forall>e \<in> set M. \<forall>syn \<in> set (snd e).
      lower syn = lower (fst e) \<or> \<not> re_search (lower syn) (fst st) \<Longrightarrow>
   fst (foldl entry_step st M) = fst st"
proof (induction M arbitrary: st)
  case Nil
  show ?case by simp
next
  case (Cons e M)
  from Cons.prems
  have e: "\<forall>syn \<in> set (snd e). lower syn = lower (fst e) \<or> \<not> re_search (lower syn) (fst st)"
    by simp
  then have 1: "fst (entry_step st e) = fst st" by (simp add: fst_entry_step foldl_syn_fixed)
  with Cons.prems have "fst (foldl entry_step (entry_step st e) M) = fst (entry_step st e)"
    by (intro Cons.IH) simp
  with 1 show ?case by simp
qed

text \<open>In a separate map a synonym that is no word of the text is not found by the search.\<close>

lemma gone_not_found:
  assumes "separate_map M" and "fresh_synonyms_gone M txt"
    and "e \<in> set M" and "syn \<in> set (snd e)"
  shows "lower syn = lower (fst e) \<or> \<not> re_search (lower syn) txt"
proof (cases "lower syn = lower (fst e)")
  case True
  then show ?thesis by simp
next
  case False
  with separate_mapD [OF assms(1,3,4)] have sw: "single_word (lower syn)" by simp
  from assms(2,3,4) False have "lower syn \<notin> set (word_tokens txt)"
    by (auto simp: fresh_synonyms_gone_def list_all_iff)
  then show ?thesis by (simp add: re_search_single_word [OF sw])
qed

text \<open>
  Claim C2, as stated: normalising the text that \<open>normalize_text\<close> returns, with the
  same map, returns the same text (and the same detected set). It fails: with the map
  \<open>{"Azure AD": ["AD"]}\<close> the text \<open>"AD"\<close> becomes \<open>azure ad\<close>, in which the
  synonym \<open>ad\<close> is a whole word again, and the second pass gives \<open>azure azure ad\<close>.
  The detected set is not stable either, even where the text is: with
  \<open>{"Azure AD": [], "Azure": ["az"]}\<close> the text \<open>"az ad"\<close> becomes \<open>azure ad\<close> with
  \<open>azure\<close> detected, and the second pass detects \<open>azure ad\<close> as well.
\<close>

theorem idempotence_counterexample:
  "plain_map [(''Azure AD'', [''AD''])] \<and>
   fst (normalize_text ''AD'' [(''Azure AD'', [''AD''])]) = ''azure ad'' \<and>
   fst (normalize_text (fst (normalize_text ''AD'' [(''Azure AD'', [''AD''])])) [(''Azure AD'', [''AD''])])
     = ''azure azure ad'' \<and>
   fst (normalize_text (fst (normalize_text ''AD'' [(''Azure AD'', [''AD''])])) [(''Azure AD'', [''AD''])])
     \<noteq> fst (normalize_text ''AD'' [(''Azure AD'', [''AD''])]) \<and>
   normalize_text ''az ad'' [(''Azure AD'', []), (''Azure'', [''az''])]
     = (''azure ad'', {''azure''}) \<and>
   normalize_text ''azure ad'' [(''Azure AD'', []), (''Azure'', [''az''])]
     = (''azure ad'', {''azure ad'', ''azure''})"
  by code_simp

text \<open>
  Claim C2, amended: for a map that keeps synonyms and canonical names apart (every
  synonym is the canonical name of its own entry or a single word that is not a word of
  any canonical name; canonical names plain) and every input text, the text that
  \<open>normalize_text\<close> has no synonym of the map among its words any more, other than
  canonical names themselves, and normalising it again with the same map returns the
  same text.
  Nothing is said of the detected set.
\<close>

theorem normalize_idempotent:
  assumes "plain_map M" and "separate_map M"
  shows "fresh_synonyms_gone M (fst (normalize_text t M)) \<and>
         fst (normalize_text (fst (normalize_text t M)) M) = fst (normalize_text t M)"
proof -
  let ?out = "fst (normalize_text t M)"
  have gone: "fresh_synonyms_gone M ?out" using assms(2) by (rule fresh_synonyms_gone_normalize)
  have "lower ?out = ?out" using lowered_normalize_text by (rule lower_lowered)
  moreover have "fst (foldl entry_step (?out, {}) M) = ?out"
    using foldl_entry_text_fixed [of M "(?out, {})"] gone_not_found [OF assms(2) gone] by simp
  ultimately have "fst (normalize_text ?out M) = ?out" by (simp add: normalize_text_def)
  with gone show ?thesis by simp
qed

theorem normalize_idempotent_witness:
  "plain_map [(''Active Directory'', [''AD'', ''active directory'']),
              (''Multi-Factor Authentication'', [''MFA'', ''2fa''])] \<and>
   separate_map [(''Active Directory'', [''AD'', ''active directory'']),
                 (''Multi-Factor Authentication'', [''MFA'', ''2fa''])] \<and>
   fst (normalize_text ''We need AD, MFA and 2FA''
          [(''Active Directory'', [''AD'', ''active directory'']),
           (''Multi-Factor Authentication'', [''MFA'', ''2fa''])])
     = ''we need active directory, multi-factor authentication and multi-factor authentication'' \<and>
   fst (normalize_text
          ''we need active directory, multi-factor authentication and multi-factor authentication''
          [(''Active Directory'', [''AD'', ''active directory'']),
           (''Multi-Factor Authentication'', [''MFA'', ''2fa''])])
     = ''we need active directory, multi-factor authentication and multi-factor authentication''"
proof -
  let ?M = "[(''Active Directory'', [''AD'', ''active directory'']),
             (''Multi-Factor Authentication'', [''MFA'', ''2fa''])]"
  have h1: "plain_map ?M" by code_simp
  have h2: "separate_map ?M" by code_simp
  have v: "fst (normalize_text ''We need AD, MFA and 2FA'' ?M)
     = ''we need active directory, multi-factor authentication and multi-factor authentication''"
    by code_simp
  from normalize_idempotent [OF h1 h2, of "''We need AD, MFA and 2FA''"] h1 h2 v
  show ?thesis by simp
qed

subsection \<open>No skills map\<close>

text \<open>
  Claim C7: with the empty map \<open>normalize_text\<close> returns the lower-cased input and
  the empty detected set; when there is no file at the path of the skills map,
  \<open>_safe_load_skills_map\<close> returns the empty map and \<open>parse_jd\<close> returns a record,
  whose normalised text is the lower-cased (stripped) input, whose skill list is empty
  and whose keywords are those of that text.
\<close>

theorem missing_skills_map:
  assumes "fs path = Missing"
  shows "normalize_text jd_text [] = (lower jd_text, {}) \<and>
         safe_load_skills_map fs path = Inr [] \<and>
         (\<exists>r. parse_jd ex fs jd_text path top_kw = Inr r \<and>
              normalized_text r = lower (strip jd_text) \<and>
              normalized_skills r = [] \<and>
              jd_keywords r = top_keywords (lower (strip jd_text)) top_kw)"
  using assms
  by (simp add: normalize_text_def safe_load_skills_map_def load_skills_map_def parse_jd_def Let_def)

theorem missing_skills_map_witness:
  "(\<lambda>p. Missing) ''data/skills_map.json'' = Missing \<and>
   normalize_text ''  Need AD and MFA '' [] = (''  need ad and mfa '', {}) \<and>
   (\<exists>r. parse_jd \<lparr>extract_title = (\<lambda>t. t), extract_company = (\<lambda>t. []),
                    extract_location = (\<lambda>t. []), guess_seniority = (\<lambda>t. []),
                    extract_bullets = (\<lambda>t h. [])\<rparr>
               (\<lambda>p. Missing) ''  Need AD and MFA '' ''data/skills_map.json'' 30 = Inr r \<and>
        normalized_text r = ''need ad and mfa'' \<and> normalized_skills r = [])"
proof -
  have h: "(\<lambda>p. Missing) ''data/skills_map.json'' = Missing" by simp
  have e1: "lower ''  Need AD and MFA '' = ''  need ad and mfa ''" by code_simp
  have e2: "lower (strip ''  Need AD and MFA '') = ''need ad and mfa''" by code_simp
  from missing_skills_map [where fs = "\<lambda>p. Missing" and path = "''data/skills_map.json''"
      and jd_text = "''  Need AD and MFA ''" and top_kw = 30
      and ex = "\<lparr>extract_title = (\<lambda>t. t), extract_company = (\<lambda>t. []),
        extract_location = (\<lambda>t. []), guess_seniority = (\<lambda>t. []),
        extract_bullets = (\<lambda>t h. [])\<rparr>", OF h]
  show ?thesis unfolding e1 e2 using h by blast
qed

section \<open>Properties of the keyword extractor\<close>

lemma foldl_count_step:
  "foldl count_step freq ws = foldl bump freq (filter (\<lambda>w. w \<notin> set STOPWORDS) ws)"
  by (induction ws arbitrary: freq) (simp_all add: count_step_def)

lemma count_words_token_stream:
  "count_words (findall_kw (lower jd)) = foldl bump [] (token_stream jd)"
  by (simp add: count_words_def token_stream_def foldl_count_step)

lemma map_fst_bump:
  "map fst (bump freq w) = (if w \<in> fst ` set freq then map fst freq else map fst freq @ [w])"
proof (induction freq)
  case Nil
  show ?case by simp
next
  case (Cons e freq)
  obtain k c where e: "e = (k, c)" by (cases e)
  show ?case
  proof (cases "k = w")
    case True
    with e show ?thesis by simp
  next
    case False
    with Cons.IH e show ?thesis by auto
  qed
qed

lemma in_set_bump:
  assumes "distinct (map fst freq)" and "x \<in> set (bump freq w)"
  shows "(x \<in> set freq \<and> fst x \<noteq> w) \<or>
     (fst x = w \<and> ((\<exists>c. (w, c) \<in> set freq \<and> snd x = c + 1) \<or> (w \<notin> fst ` set freq \<and> snd x = 1)))"
  using assms
proof (induction freq)
  case Nil
  then show ?case by simp
next
  case (Cons e freq)
  obtain k c where e: "e = (k, c)" by (cases e)
  show ?case
  proof (cases "k = w")
    case True
    with Cons.prems e have "x = (w, c + 1) \<or> x \<in> set freq" by simp
    then show ?thesis
    proof
      assume "x = (w, c + 1)"
      with True e show ?thesis by simp
    next
      assume x: "x \<in> set freq"
      with Cons.prems(1) e True have "fst x \<noteq> w" by (auto simp: image_iff)
      with x show ?thesis by simp
    qed
  next
    case False
    with Cons.prems e have "x = (k, c) \<or> x \<in> set (bump freq w)" by simp
    then show ?thesis
    proof
      assume "x = (k, c)"
      with False e show ?thesis by simp
    next
      assume "x \<in> set (bump freq w)"
      moreover from Cons.prems(1) have "distinct (map fst freq)" by simp
      ultimately have "(x \<in> set freq \<and> fst x \<noteq> w) \<or>
        (fst x = w \<and> ((\<exists>c. (w, c) \<in> set freq \<and> snd x = c + 1) \<or> (w \<notin> fst ` set freq \<and> snd x = 1)))"
        by (rule Cons.IH [rotated])
      with False e show ?thesis by auto
    qed
  qed
qed

lemma first_index_append_in: "a \<in> set ks \<Longrightarrow> first_index (ks @ ls) a = first_index ks a"
  by (simp add: first_index_def)

lemma first_index_less: "a \<in> set ks \<Longrightarrow> first_index ks a < length ks"
  unfolding first_index_def by (induction ks) auto

lemma first_index_new:
  assumes "k \<notin> set ks"
  shows "first_index (ks @ [k]) k = length ks"
proof -
  from assms have "\<And>x. x \<in> set ks \<Longrightarrow> x \<noteq> k" by blast
  then have "takeWhile (\<lambda>x. x \<noteq> k) (ks @ [k]) = ks @ takeWhile (\<lambda>x. x \<noteq> k) [k]"
    by (rule takeWhile_append2)
  then show ?thesis by (simp add: first_index_def)
qed

text \<open>The frequency table after the loop.\<close>

lemma freq_table:
  "fst ` set (foldl bump [] ks) = set ks \<and>
   distinct (map fst (foldl bump [] ks)) \<and>
   (\<forall>x \<in> set (foldl bump [] ks). snd x = count_list ks (fst x)) \<and>
   sorted_wrt (\<lambda>a b. first_index ks a < first_index ks b) (map fst (foldl bump [] ks))"
proof (induction ks rule: rev_induct)
  case Nil
  show ?case by simp
next
  case (snoc k ks)
  let ?F = "foldl bump [] ks"
  from snoc.IH have keys: "fst ` set ?F = set ks"
    and dist: "distinct (map fst ?F)"
    and cnt: "\<forall>x \<in> set ?F. snd x = count_list ks (fst x)"
    and ord: "sorted_wrt (\<lambda>a b. first_index ks a < first_index ks b) (map fst ?F)"
    by simp_all
  note keys' = keys
  have F: "foldl bump [] (ks @ [k]) = bump ?F k" by simp
  have mf: "map fst (bump ?F k) = (if k \<in> set ks then map fst ?F else map fst ?F @ [k])"
    by (simp add: map_fst_bump keys)
  have "set (map fst (bump ?F k)) = set (ks @ [k])"
    unfolding mf using keys by auto
  then have 1: "fst ` set (bump ?F k) = set (ks @ [k])" by simp
  have 2: "distinct (map fst (bump ?F k))"
    unfolding mf using dist keys by auto
  have 3: "\<forall>x \<in> set (bump ?F k). snd x = count_list (ks @ [k]) (fst x)"
  proof
    fix x assume "x \<in> set (bump ?F k)"
    from in_set_bump [OF dist this] show "snd x = count_list (ks @ [k]) (fst x)"
    proof (elim disjE conjE exE)
      assume "x \<in> set ?F" "fst x \<noteq> k"
      with cnt show ?thesis by simp
    next
      fix c assume "fst x = k" "(k, c) \<in> set ?F" "snd x = c + 1"
      with cnt show ?thesis by fastforce
    next
      assume "fst x = k" "k \<notin> fst ` set ?F" "snd x = 1"
      with keys' show ?thesis by simp
    qed
  qed
  have old: "sorted_wrt (\<lambda>a b. first_index (ks @ [k]) a < first_index (ks @ [k]) b) (map fst ?F)"
  proof (rule sorted_wrt_mono_rel [OF _ ord])
    fix a b assume "a \<in> set (map fst ?F)" "b \<in> set (map fst ?F)"
      "first_index ks a < first_index ks b"
    with keys have "a \<in> set ks" "b \<in> set ks" "first_index ks a < first_index ks b" by simp_all
    then show "first_index (ks @ [k]) a < first_index (ks @ [k]) b"
      by (simp add: first_index_append_in)
  qed
  have 4: "sorted_wrt (\<lambda>a b. first_index (ks @ [k]) a < first_index (ks @ [k]) b) (map fst (bump ?F k))"
  proof (cases "k \<in> set ks")
    case True
    with old show ?thesis by (simp add: mf)
  next
    case False
    have "first_index (ks @ [k]) a < first_index (ks @ [k]) k" if "a \<in> set ks" for a
      using that False by (simp add: first_index_append_in first_index_new first_index_less)
    with old keys False show ?thesis by (simp add: mf sorted_wrt_append)
  qed
  from 1 2 3 4 show ?case unfolding F by blast
qed

text \<open>A stable sort breaks ties by the order of the list it is given.\<close>

lemma insort_key_wrt:
  fixes f :: "'a \<Rightarrow> 'k::linorder"
  assumes "sorted_wrt (\<lambda>x y. f x < f y \<or> (f x = f y \<and> lt x y)) ys"
    and "\<forall>y \<in> set ys. lt x y"
  shows "sorted_wrt (\<lambda>x y. f x < f y \<or> (f x = f y \<and> lt x y)) (insort_key f x ys)"
  using assms
proof (induction ys)
  case Nil
  show ?case by simp
next
  case (Cons y ys)
  show ?case
  proof (cases "f x \<le> f y")
    case True
    have "f x < f z \<or> (f x = f z \<and> lt x z)" if "z \<in> set (y # ys)" for z
    proof -
      from that Cons.prems(1) have "f y \<le> f z" by auto
      with True have "f x \<le> f z" by simp
      moreover from that Cons.prems(2) have "lt x z" by auto
      ultimately show ?thesis by auto
    qed
    with True Cons.prems(1) show ?thesis by simp
  next
    case False
    from Cons.prems have "sorted_wrt (\<lambda>x y. f x < f y \<or> (f x = f y \<and> lt x y)) (insort_key f x ys)"
      by (intro Cons.IH) simp_all
    with False Cons.prems(1) show ?thesis by (auto simp: set_insort_key)
  qed
qed

lemma sort_key_wrt:
  fixes f :: "'a \<Rightarrow> 'k::linorder"
  assumes "sorted_wrt lt xs"
  shows "sorted_wrt (\<lambda>x y. f x < f y \<or> (f x = f y \<and> lt x y)) (sort_key f xs)"
  using assms
proof (induction xs)
  case Nil
  show ?case by simp
next
  case (Cons x xs)
  from Cons.prems have "\<forall>y \<in> set (sort_key f xs). lt x y" by simp
  moreover from Cons have "sorted_wrt (\<lambda>x y. f x < f y \<or> (f x = f y \<and> lt x y)) (sort_key f xs)"
    by simp
  ultimately show ?case by (simp add: insort_key_wrt)
qed

lemma py_take_prefix: "\<exists>m. py_take n xs = take m xs"
  by (auto simp: py_take_def)

lemma ranked_table:
  "sorted_wrt (\<lambda>x y. ranks_before ks (fst x) (fst y))
     (sort_key (\<lambda>x. - int (snd x)) (foldl bump [] ks))"
proof -
  let ?F = "foldl bump [] ks" and ?f = "\<lambda>x :: string \<times> nat. - int (snd x)"
  from freq_table [of ks]
  have cnt: "\<forall>x \<in> set ?F. snd x = count_list ks (fst x)"
    and ord: "sorted_wrt (\<lambda>x y. first_index ks (fst x) < first_index ks (fst y)) ?F"
    by (simp_all add: sorted_wrt_map)
  from sort_key_wrt [OF ord, of ?f]
  have "sorted_wrt (\<lambda>x y. ?f x < ?f y \<or> (?f x = ?f y \<and> first_index ks (fst x) < first_index ks (fst y)))
          (sort_key ?f ?F)" .
  then show ?thesis
  proof (rule sorted_wrt_mono_rel [rotated])
    fix x y assume "x \<in> set (sort_key ?f ?F)" "y \<in> set (sort_key ?f ?F)"
      and "?f x < ?f y \<or> (?f x = ?f y \<and> first_index ks (fst x) < first_index ks (fst y))"
    with cnt show "ranks_before ks (fst x) (fst y)" by (auto simp: ranks_before_def)
  qed
qed

lemma top_keywords_sorted:
  "sorted_wrt (ranks_before (token_stream jd)) (top_keywords jd n)"
proof -
  obtain m where m: "py_take n (sort_key (\<lambda>x. - int (snd x)) (foldl bump [] (token_stream jd)))
      = take m (sort_key (\<lambda>x. - int (snd x)) (foldl bump [] (token_stream jd)))"
    using py_take_prefix by blast
  show ?thesis
    unfolding top_keywords_def count_words_token_stream m
    by (simp add: sorted_wrt_map ranked_table)
qed

lemma distinct_ranked:
  "distinct (map fst (sort_key (\<lambda>x. - int (snd x)) (foldl bump [] ks)))"
proof -
  have "mset (map fst (sort_key (\<lambda>x. - int (snd x)) (foldl bump [] ks)))
          = mset (map fst (foldl bump [] ks))" by simp
  from mset_eq_imp_distinct_iff [OF this] freq_table [of ks] show ?thesis by simp
qed

text \<open>
  Claim C5, as stated: for every \<open>n\<close> the keyword list is ordered by descending
  frequency, ties in first-seen order, and has at most \<open>n\<close> entries. The bound fails
  for a negative \<open>n\<close>, where the slice \<^verbatim>\<open>[:n]\<close> drops entries from the end
  instead: \<open>_top_keywords("aaa bbb", -1)\<close> is \<open>["aaa"]\<close>, one entry.
\<close>

theorem top_keywords_counterexample:
  "top_keywords ''aaa bbb'' (- 1) = [''aaa''] \<and>
   \<not> int (length (top_keywords ''aaa bbb'' (- 1))) \<le> - 1"
  by code_simp

text \<open>
  Claim C5, amended: for every text and every \<open>n\<close> the keyword list is ordered by
  descending frequency in the token stream, tokens of equal frequency standing in the
  order in which they were first seen; for every \<open>n \<ge> 0\<close> it has at most \<open>n\<close>
  entries, being the first \<open>n\<close> entries of the full ranking, which holds every token
  of the stream.
\<close>

theorem top_keywords_order:
  "(\<forall>i j. i < j \<longrightarrow> j < length (top_keywords jd n) \<longrightarrow>
       ranks_before (token_stream jd) (top_keywords jd n ! i) (top_keywords jd n ! j)) \<and>
   (0 \<le> n \<longrightarrow> length (top_keywords jd n) \<le> nat n \<and>
      top_keywords jd n = take (nat n) (top_keywords jd (int (length (token_stream jd))))) \<and>
   set (top_keywords jd (int (length (token_stream jd)))) = set (token_stream jd)"
proof -
  let ?ks = "token_stream jd"
  let ?R = "sort_key (\<lambda>x. - int (snd x)) (foldl bump [] ?ks)"
  have len: "length ?R \<le> length ?ks"
  proof -
    have "length ?R = length (map fst (foldl bump [] ?ks))" by simp
    also have "\<dots> = card (set (map fst (foldl bump [] ?ks)))"
    proof -
      from freq_table [of ?ks] have "distinct (map fst (foldl bump [] ?ks))" by simp
      then show ?thesis by (simp only: distinct_card)
    qed
    also have "\<dots> = card (set ?ks)" using freq_table [of ?ks] by simp
    also have "\<dots> \<le> length ?ks" by (rule card_length)
    finally show ?thesis .
  qed
  then have full: "top_keywords jd (int (length ?ks)) = map fst ?R"
    by (simp add: top_keywords_def count_words_token_stream py_take_def)
  have 1: "\<forall>i j. i < j \<longrightarrow> j < length (top_keywords jd n) \<longrightarrow>
       ranks_before ?ks (top_keywords jd n ! i) (top_keywords jd n ! j)"
    using top_keywords_sorted [of jd n] by (simp add: sorted_wrt_iff_nth_less)
  have 2: "length (top_keywords jd n) \<le> nat n \<and>
      top_keywords jd n = take (nat n) (top_keywords jd (int (length ?ks)))" if "0 \<le> n"
    using that unfolding full
    by (simp add: top_keywords_def count_words_token_stream py_take_def take_map)
  have 3: "set (top_keywords jd (int (length ?ks))) = set ?ks"
    unfolding full using freq_table [of ?ks] by simp
  from 1 2 3 show ?thesis by blast
qed

theorem top_keywords_order_witness:
  "(0::int) \<le> 2 \<and>
   top_keywords ''Terraform, AWS and Python. aws!'' 2 = [''aws'', ''terraform''] \<and>
   length (top_keywords ''Terraform, AWS and Python. aws!'' 2) \<le> nat 2 \<and>
   ranks_before (token_stream ''Terraform, AWS and Python. aws!'')
     (top_keywords ''Terraform, AWS and Python. aws!'' 2 ! 0)
     (top_keywords ''Terraform, AWS and Python. aws!'' 2 ! 1)"
proof -
  let ?t = "''Terraform, AWS and Python. aws!''"
  have v: "top_keywords ?t 2 = [''aws'', ''terraform'']" by code_simp
  then have len: "(1::nat) < length (top_keywords ?t 2)" by simp
  from top_keywords_order [of ?t 2]
  have a: "\<forall>i j. i < j \<longrightarrow> j < length (top_keywords ?t 2) \<longrightarrow>
             ranks_before (token_stream ?t) (top_keywords ?t 2 ! i) (top_keywords ?t 2 ! j)"
    and b: "0 \<le> (2::int) \<longrightarrow> length (top_keywords ?t 2) \<le> nat 2"
    by blast+
  from a len have "ranks_before (token_stream ?t) (top_keywords ?t 2 ! 0) (top_keywords ?t 2 ! 1)"
    by (metis zero_less_one)
  with b v show ?thesis by simp
qed

text \<open>
  Claim C9: for every text and every \<open>n\<close> the entries of the keyword list are pairwise
  distinct, and each of them is a token of the tokenisation of the (lower-cased) input.
\<close>

theorem top_keywords_distinct:
  "distinct (top_keywords jd n) \<and> set (top_keywords jd n) \<subseteq> set (findall_kw (lower jd))"
proof -
  let ?ks = "token_stream jd"
  let ?R = "sort_key (\<lambda>x. - int (snd x)) (foldl bump [] ?ks)"
  obtain m where m: "py_take n ?R = take m ?R" using py_take_prefix by blast
  have tk: "top_keywords jd n = take m (map fst ?R)"
    by (simp add: top_keywords_def count_words_token_stream m take_map)
  have "distinct (top_keywords jd n)" unfolding tk using distinct_ranked by simp
  moreover have "set (top_keywords jd n) \<subseteq> set (map fst ?R)" unfolding tk by (rule set_take_subset)
  moreover have "set (map fst ?R) = set ?ks" using freq_table [of ?ks] by simp
  moreover have "set ?ks \<subseteq> set (findall_kw (lower jd))" by (auto simp: token_stream_def)
  ultimately show ?thesis by blast
qed

section \<open>Properties of float rounding\<close>

lemma pow2_powr: "pow2 e = 2 powr (real_of_int e)"
proof (cases "0 \<le> e")
  case True
  then have "2 powr (real_of_int e) = 2 powr (real (nat e))" by simp
  also have "\<dots> = 2 ^ nat e" by (simp add: powr_realpow)
  finally show ?thesis using True by (simp add: pow2_def)
next
  case False
  then have "2 powr (real_of_int e) = 2 powr (- real (nat (- e)))" by simp
  also have "\<dots> = 1 / 2 powr (real (nat (- e)))" by (simp add: powr_minus divide_inverse)
  also have "\<dots> = 1 / 2 ^ nat (- e)" by (simp add: powr_realpow)
  finally show ?thesis using False by (simp add: pow2_def)
qed

lemma pow2_pos: "0 < pow2 e"
  by (simp add: pow2_powr)

lemma pow2_add: "pow2 (a + b) = pow2 a * pow2 b"
  by (simp add: pow2_powr powr_add)

lemma pow2_succ: "pow2 (e + 1) = 2 * pow2 e"
  by (simp add: pow2_add) (simp add: pow2_def)

lemma pow2_mono: "a \<le> b \<Longrightarrow> pow2 a \<le> pow2 b"
  by (simp add: pow2_powr)

lemma pow2_52: "pow2 52 = 2 ^ 52"
  by (simp add: pow2_def)

lemma expo_spec: "x \<noteq> 0 \<Longrightarrow> pow2 (expo x) \<le> \<bar>x\<bar> \<and> \<bar>x\<bar> < pow2 (expo x + 1)"
proof (induction x rule: expo.induct)
  case (1 x)
  show ?case
  proof (cases "2 \<le> \<bar>x\<bar>")
    case True
    with "1.prems" have e: "expo x = expo (x / 2) + 1" by (subst expo.simps) simp
    from "1.prems" have "x / 2 \<noteq> 0" by simp
    from "1.IH"(1) [OF "1.prems" True this]
    have "pow2 (expo (x / 2)) \<le> \<bar>x / 2\<bar>" and "\<bar>x / 2\<bar> < pow2 (expo (x / 2) + 1)" by simp_all
    then have "2 * pow2 (expo (x / 2)) \<le> \<bar>x\<bar>" and "\<bar>x\<bar> < 2 * pow2 (expo (x / 2) + 1)" by simp_all
    then have "pow2 (expo (x / 2) + 1) \<le> \<bar>x\<bar>" and "\<bar>x\<bar> < pow2 (expo (x / 2) + 1 + 1)"
      by (simp_all only: pow2_succ)
    then show ?thesis by (simp only: e)
  next
    case False
    show ?thesis
    proof (cases "\<bar>x\<bar> < 1")
      case True
      with "1.prems" False have e: "expo x = expo (x * 2) - 1" by (subst expo.simps) simp
      from "1.prems" have "x * 2 \<noteq> 0" by simp
      from "1.IH"(2) [OF "1.prems" False True this]
      have a: "pow2 (expo (x * 2)) \<le> \<bar>x * 2\<bar>" and b: "\<bar>x * 2\<bar> < pow2 (expo (x * 2) + 1)" by simp_all
      define k where "k = expo (x * 2)"
      have k1: "pow2 k = 2 * pow2 (k - 1)" using pow2_succ [of "k - 1"] by simp
      have k2: "pow2 (k + 1) = 2 * pow2 k" by (rule pow2_succ)
      from a b have "pow2 k \<le> 2 * \<bar>x\<bar>" and "2 * \<bar>x\<bar> < pow2 (k + 1)"
        by (simp_all add: k_def abs_mult)
      then have "pow2 (k - 1) \<le> \<bar>x\<bar>" and "\<bar>x\<bar> < pow2 k" unfolding k2 unfolding k1 by simp_all
      moreover have "expo x + 1 = k" by (simp add: e k_def)
      moreover have "expo x = k - 1" by (simp add: e k_def)
      ultimately show ?thesis by simp
    next
      case small: False
      with "1.prems" False have e: "expo x = 0" by (subst expo.simps) simp
      from False small show ?thesis by (simp add: e pow2_def)
    qed
  qed
qed

lemma expo_unique:
  assumes "pow2 k \<le> \<bar>x\<bar>" and "\<bar>x\<bar> < pow2 (k + 1)"
  shows "expo x = k"
proof -
  from assms(1) pow2_pos [of k] have nz: "x \<noteq> 0" by auto
  from expo_spec [OF nz] have lo: "pow2 (expo x) \<le> \<bar>x\<bar>" and hi: "\<bar>x\<bar> < pow2 (expo x + 1)"
    by simp_all
  have "\<not> expo x < k"
  proof
    assume "expo x < k"
    then have "pow2 (expo x + 1) \<le> pow2 k" by (intro pow2_mono) simp
    with hi assms(1) show False by simp
  qed
  moreover have "\<not> k < expo x"
  proof
    assume "k < expo x"
    then have "pow2 (k + 1) \<le> pow2 (expo x)" by (intro pow2_mono) simp
    with lo assms(2) show False by simp
  qed
  ultimately show ?thesis by simp
qed

lemma round_even_of_int: "round_even (of_int n) = n"
  by (simp add: round_even_def)

lemma round_even_ge: "of_int n \<le> r \<Longrightarrow> n \<le> round_even r"
proof -
  assume "of_int n \<le> r"
  then have "n \<le> \<lfloor>r\<rfloor>" by (simp add: le_floor_iff)
  then show ?thesis by (simp add: round_even_def Let_def)
qed

lemma round_even_le: "r \<le> of_int n \<Longrightarrow> round_even r \<le> n"
proof -
  assume le: "r \<le> of_int n"
  show ?thesis
  proof (cases "r = of_int n")
    case True
    then show ?thesis by (simp add: round_even_of_int)
  next
    case False
    with le have "r < of_int n" by simp
    then have "\<lfloor>r\<rfloor> < n" by (simp add: floor_less_iff)
    then show ?thesis by (simp add: round_even_def Let_def)
  qed
qed

lemma fl_0: "fl 0 = 0"
  by (simp add: fl_def Let_def)

lemma fl_pos:
  assumes "0 < x"
  shows "0 < fl x \<and> fl (fl x) = fl x"
proof -
  define e where "e = expo x"
  define u where "u = pow2 (e - 52)"
  define n where "n = round_even (x / u)"
  have u: "0 < u" by (simp add: u_def pow2_pos)
  have pe: "pow2 e = 2 ^ 52 * u"
    using pow2_add [of 52 "e - 52"] by (simp add: u_def pow2_52)
  have pe1: "pow2 (e + 1) = 2 ^ 53 * u" by (simp add: pow2_succ pe)
  from assms expo_spec [of x] have "pow2 e \<le> x" and "x < pow2 (e + 1)" by (simp_all add: e_def)
  with u have "2 ^ 52 \<le> x / u" and "x / u \<le> 2 ^ 53"
    by (simp_all add: pe pe1 pos_le_divide_eq pos_divide_le_eq)
  then have "real_of_int (2 ^ 52) \<le> x / u" and "x / u \<le> real_of_int (2 ^ 53)" by simp_all
  then have lo: "2 ^ 52 \<le> n" and hi: "n \<le> 2 ^ 53"
    unfolding n_def by (simp_all only: round_even_ge round_even_le)
  have y: "fl x = of_int n * u" using assms by (simp add: fl_def Let_def e_def u_def n_def)
  from lo have npos: "0 < n" by simp
  with u have ypos: "0 < of_int n * u" by simp
  have "fl (of_int n * u) = of_int n * u"
  proof (cases "n = 2 ^ 53")
    case True
    then have yv: "of_int n * u = pow2 (e + 1)" by (simp add: pe1)
    have "expo (pow2 (e + 1)) = e + 1"
      using pow2_pos [of "e + 1"] pow2_succ [of "e + 1"] by (intro expo_unique) simp_all
    moreover have "pow2 (e + 1 - 52) = 2 * u" using pow2_succ [of "e - 52"] by (simp add: u_def)
    moreover have "pow2 (e + 1) / (2 * u) = of_int (2 ^ 52)" using u by (simp add: pe1)
    ultimately have "fl (pow2 (e + 1)) = of_int (round_even (of_int (2 ^ 52))) * (2 * u)"
      using pow2_pos [of "e + 1"] by (simp add: fl_def Let_def)
    also have "\<dots> = pow2 (e + 1)" by (simp only: round_even_of_int) (simp add: pe1)
    finally show ?thesis by (simp add: yv)
  next
    case False
    with hi have "n < 2 ^ 53" by simp
    then have "real_of_int n < 2 ^ 53" by (metis of_int_less_iff of_int_numeral of_int_power)
    with u have "of_int n * u < pow2 (e + 1)" by (simp add: pe1)
    moreover from lo have "2 ^ 52 \<le> real_of_int n" by (metis of_int_le_iff of_int_numeral of_int_power)
    with u have "pow2 e \<le> of_int n * u" by (simp add: pe)
    ultimately have "expo (of_int n * u) = e" using ypos by (intro expo_unique) simp_all
    moreover have "of_int n * u / u = of_int n" using u by simp
    ultimately show ?thesis using ypos
      by (simp add: fl_def Let_def u_def [symmetric] round_even_of_int)
  qed
  with y ypos show ?thesis by simp
qed

lemma round_even_minus: "round_even (- r) = - round_even r"
proof (cases "r = of_int \<lfloor>r\<rfloor>")
  case True
  then obtain n where "r = of_int n" ..
  then have "round_even r = n" and "round_even (- r) = - n"
    using round_even_of_int [of n] round_even_of_int [of "- n"] by simp_all
  then show ?thesis by simp
next
  case False
  define f where "f = \<lfloor>r\<rfloor>"
  have "of_int f \<le> r" unfolding f_def by (rule of_int_floor_le)
  moreover have "of_int f \<noteq> r" using False unfolding f_def by (rule not_sym)
  ultimately have lt: "of_int f < r" by (rule order.not_eq_order_implies_strict [rotated])
  have ub: "r < of_int f + 1" by (simp add: f_def)
  have "\<lfloor>- r\<rfloor> = - f - 1"
    using lt ub by (intro floor_unique) simp_all
  then have m: "round_even (- r) =
      (if of_int f + 1 - r < 1 / 2 then - f - 1
       else if 1 / 2 < of_int f + 1 - r then - f
       else if even (- f - 1) then - f - 1 else - f)"
    by (simp add: round_even_def Let_def)
  have p: "round_even r =
      (if r - of_int f < 1 / 2 then f
       else if 1 / 2 < r - of_int f then f + 1
       else if even f then f else f + 1)"
    by (simp add: round_even_def Let_def f_def)
  consider "r - of_int f < 1 / 2" | "1 / 2 < r - of_int f" | "r - of_int f = 1 / 2" by linarith
  then show ?thesis
  proof cases
    case 1
    then have "1 / 2 < of_int f + 1 - r" and "\<not> of_int f + 1 - r < 1 / 2" by simp_all
    with 1 show ?thesis by (simp add: m p)
  next
    case 2
    then have "of_int f + 1 - r < 1 / 2" and "\<not> r - of_int f < 1 / 2" by simp_all
    with 2 show ?thesis by (simp add: m p)
  next
    case 3
    then have "of_int f + 1 - r = 1 / 2" by simp
    with 3 show ?thesis by (simp add: m p)
  qed
qed

lemma expo_minus: "expo (- x) = expo x"
proof (cases "x = 0")
  case True
  then show ?thesis by simp
next
  case False
  from expo_spec [OF False] show ?thesis by (intro expo_unique) simp_all
qed

lemma fl_minus: "fl (- x) = - fl x"
  by (simp add: fl_def Let_def expo_minus round_even_minus)

lemma fl_idem: "fl (fl x) = fl x"
proof -
  consider "x = 0" | "0 < x" | "0 < - x" by linarith
  then show ?thesis
  proof cases
    case 1
    then show ?thesis by (simp add: fl_0)
  next
    case 2
    then show ?thesis by (simp add: fl_pos)
  next
    case 3
    from fl_pos [OF 3] have "fl (fl (- x)) = fl (- x)" by simp
    then show ?thesis by (simp add: fl_minus)
  qed
qed

lemma fl_eq_0_iff: "fl x = 0 \<longleftrightarrow> x = 0"
proof
  assume z: "fl x = 0"
  show "x = 0"
  proof (rule ccontr)
    assume "x \<noteq> 0"
    then consider "0 < x" | "0 < - x" by linarith
    then show False
    proof cases
      case 1
      from fl_pos [OF 1] z show False by simp
    next
      case 2
      from fl_pos [OF 2] z show False by (simp add: fl_minus)
    qed
  qed
next
  assume "x = 0"
  then show "fl x = 0" by (simp add: fl_0)
qed

section \<open>Properties of the retriever\<close>

lemma overlap_score_eq:
  "overlap_score meta S =
     real (fcard (folded_tags meta |\<inter>| S)) /
     real (if fcard (folded_tags meta |\<union>| S) = 0 then 1 else fcard (folded_tags meta |\<union>| S))"
  by (simp add: overlap_score_def folded_tags_def Let_def)

lemma fcard_inter_le_union: "fcard (A |\<inter>| B) \<le> fcard (A |\<union>| B)"
  by (rule fcard_mono) auto

lemma fcard_0_iff: "fcard A = 0 \<longleftrightarrow> A = {||}"
  by (metis fcard_fempty fcard_seteq fempty_fsubsetI le_refl)

lemma ratio_le_one:
  fixes i u :: nat
  assumes "i \<le> u"
  shows "real i / real (if u = 0 then 1 else u) \<le> 1"
  using assms by (cases "u = 0") simp_all

text \<open>
  Claim C4: the overlap bonus lies between 0 and 1; it is 0 when the tag set or the
  skill set is empty (both empty included: the denominator is then 1) or when they are
  disjoint, and 1 when they are equal and not empty. The sets are the ones the
  retriever compares: the lower-cased tags of the metadata and the skill set handed to
  \<open>_overlap_score\<close>, which \<open>query_snippets\<close> has lower-cased.
\<close>

theorem jaccard_bonus_bounds:
  "0 \<le> overlap_score meta S \<and> overlap_score meta S \<le> 1 \<and>
   (folded_tags meta = {||} \<or> S = {||} \<or> folded_tags meta |\<inter>| S = {||}
      \<longrightarrow> overlap_score meta S = 0) \<and>
   (folded_tags meta = S \<and> S \<noteq> {||} \<longrightarrow> overlap_score meta S = 1)"
proof -
  let ?T = "folded_tags meta"
  let ?i = "fcard (?T |\<inter>| S)" and ?u = "fcard (?T |\<union>| S)"
  have le: "?i \<le> ?u" by (rule fcard_inter_le_union)
  have 1: "0 \<le> overlap_score meta S" by (simp add: overlap_score_eq)
  have 2: "overlap_score meta S \<le> 1"
    unfolding overlap_score_eq using le by (rule ratio_le_one)
  have 3: "overlap_score meta S = 0" if "?T = {||} \<or> S = {||} \<or> ?T |\<inter>| S = {||}"
  proof -
    from that have "?T |\<inter>| S = {||}" by auto
    then show ?thesis by (simp add: overlap_score_eq)
  qed
  have 4: "overlap_score meta S = 1" if "?T = S \<and> S \<noteq> {||}"
  proof -
    from that have "fcard S \<noteq> 0" by (simp add: fcard_0_iff)
    with that show ?thesis by (simp add: overlap_score_eq)
  qed
  from 1 2 3 4 show ?thesis by blast
qed

theorem jaccard_bonus_bounds_witness:
  "folded_tags (Some \<lparr>tags = Some [''AWS'', ''Python''], seniority = ''Senior''\<rparr>)
     = {|''aws'', ''python''|} \<and>
   {|''aws'', ''python''|} \<noteq> ({||} :: string fset) \<and>
   overlap_score (Some \<lparr>tags = Some [''AWS'', ''Python''], seniority = ''Senior''\<rparr>)
     {|''aws'', ''python''|} = 1"
proof -
  let ?m = "Some \<lparr>tags = Some [''AWS'', ''Python''], seniority = ''Senior''\<rparr>"
  have h1: "folded_tags ?m = {|''aws'', ''python''|}" by code_simp
  have h2: "{|''aws'', ''python''|} \<noteq> ({||} :: string fset)" by simp
  from jaccard_bonus_bounds [of ?m "{|''aws'', ''python''|}"] h1 h2 show ?thesis by blast
qed

subsection \<open>Base scores\<close>

lemma base_scores_eq:
  "base_scores ds = Inr bs \<Longrightarrow> bs = map (\<lambda>d. fl (1 / fl (1 + d))) ds"
proof (induction ds arbitrary: bs)
  case Nil
  then show ?case by simp
next
  case (Cons d ds)
  from Cons.prems obtain bs' where "base_scores ds = Inr bs'" and "bs = fl (1 / fl (1 + d)) # bs'"
    by (auto simp: Let_def split: if_splits sum.splits)
  with Cons.IH show ?case by simp
qed

lemma base_scores_ok:
  "- 1 \<notin> set ds \<Longrightarrow> base_scores ds = Inr (map (\<lambda>d. fl (1 / fl (1 + d))) ds)"
proof (induction ds)
  case Nil
  show ?case by simp
next
  case (Cons d ds)
  from Cons.prems have "1 + d \<noteq> 0" by auto
  then have "fl (1 + d) \<noteq> 0" by (simp only: fl_eq_0_iff) simp
  with Cons show ?case by (simp add: Let_def)
qed

lemma base_scores_float: "base_scores ds = Inr bs \<Longrightarrow> b \<in> set bs \<Longrightarrow> fl b = b"
  by (auto dest!: base_scores_eq simp: fl_idem)

lemma zip3_map:
  "zip xs (zip ys (map g zs)) = map (\<lambda>(x, y, z). (x, y, g z)) (zip xs (zip ys zs))"
proof (induction xs arbitrary: ys zs)
  case Nil
  show ?case by simp
next
  case (Cons x xs)
  show ?case
  proof (cases ys)
    case Nil
    then show ?thesis by simp
  next
    case ys: (Cons y ys')
    show ?thesis
    proof (cases zs)
      case Nil
      then show ?thesis by (simp add: ys)
    next
      case (Cons z zs')
      with ys Cons.IH [of ys' zs'] show ?thesis by simp
    qed
  qed
qed

text \<open>The candidates carry the composite score of the specification.\<close>

lemma boosted_candidates_eq:
  assumes "boosted_candidates coll q skills top_k = Inr bs"
  shows "bs = map (\<lambda>(doc, meta, d).
                 (doc, meta, composite_score d meta
                    (fimage lower (case skills of None \<Rightarrow> {||} | Some sk \<Rightarrow> sk))))
              (zip (documents (coll q (min 50 (top_k * 2))))
                 (zip (metadatas (coll q (min 50 (top_k * 2))))
                    (scored_distances (coll q (min 50 (top_k * 2))))))"
proof -
  let ?res = "coll q (min 50 (top_k * 2))"
  let ?sk = "fimage lower (case skills of None \<Rightarrow> {||} | Some sk \<Rightarrow> sk)"
  from assms obtain bases where b: "base_scores (scored_distances ?res) = Inr bases"
    and bs: "bs = map (\<lambda>(doc, meta, base).
                       (doc, meta, fl (base + fl (0.25 * fl (overlap_score meta ?sk)))))
                    (zip (documents ?res) (zip (metadatas ?res) bases))"
    by (auto simp: boosted_candidates_def scored_distances_def Let_def split: sum.splits)
  from base_scores_eq [OF b]
  have "bases = map (\<lambda>d. fl (1 / fl (1 + d))) (scored_distances ?res)" .
  then have "zip (documents ?res) (zip (metadatas ?res) bases)
      = map (\<lambda>(x, y, z). (x, y, fl (1 / fl (1 + z))))
          (zip (documents ?res) (zip (metadatas ?res) (scored_distances ?res)))"
    by (simp only: zip3_map)
  with bs show ?thesis by (simp add: composite_score_def case_prod_unfold comp_def)
qed

lemma boosted_candidates_ok:
  assumes "- 1 \<notin> set (distances (coll q (min 50 (top_k * 2))))"
  shows "\<exists>bs. boosted_candidates coll q skills top_k = Inr bs"
proof -
  let ?res = "coll q (min 50 (top_k * 2))"
  let ?dists = "if distances ?res = [] then replicate (length (documents ?res)) 1 else distances ?res"
  from assms have "- 1 \<notin> set ?dists" by simp
  then have "base_scores ?dists = Inr (map (\<lambda>d. fl (1 / fl (1 + d))) ?dists)" by (rule base_scores_ok)
  then show ?thesis by (simp add: boosted_candidates_def Let_def)
qed

lemma rerank_sorted: "sorted_wrt (\<lambda>a b. score b \<le> score a) (rerank bs)"
proof -
  have "sorted (map (\<lambda>b. - score b) (sort_key (\<lambda>b. - score b) bs))" by (rule sorted_sort_key)
  then show ?thesis by (simp add: rerank_def sorted_wrt_map)
qed

lemma rerank_stable: "filter (\<lambda>b. score b = v) (rerank bs) = filter (\<lambda>b. score b = v) bs"
  using sort_key_stable [of "\<lambda>b. - score b" "- v" bs] by (simp add: rerank_def)

lemma length_py_take: "0 \<le> n \<Longrightarrow> length (py_take n xs) \<le> nat n"
  by (simp add: py_take_def)

text \<open>
  Claim C3: for \<open>top_k \<ge> 0\<close>, whenever \<open>query_snippets\<close> returns, its list has at most
  \<open>top_k\<close> entries and holds the documents of the first \<open>top_k\<close> candidates of the
  re-ranked list. The candidates are the documents of the index, each with the
  composite score \<open>1 / (1 + d) + 0.25 * bonus\<close> of its distance and its tags, computed
  in float arithmetic; the re-ranked list is a rearrangement of them in non-increasing
  order of that score, in which candidates of equal score keep the order of the index.
  The call returns whenever no distance is \<open>-1\<close>, every metadata having a list of
  tags or no tags at all.
\<close>

theorem retrieval_top_k:
  assumes "0 \<le> top_k"
  shows "(- 1 \<notin> set (distances (coll q (min 50 (top_k * 2))))
            \<longrightarrow> (\<exists>out. query_snippets coll q skills top_k = Inr out)) \<and>
         (\<forall>out. query_snippets coll q skills top_k = Inr out \<longrightarrow>
            length out \<le> nat top_k \<and>
            (\<exists>bs. bs = map (\<lambda>(doc, meta, d).
                             (doc, meta, composite_score d meta
                                (fimage lower (case skills of None \<Rightarrow> {||} | Some sk \<Rightarrow> sk))))
                          (zip (documents (coll q (min 50 (top_k * 2))))
                             (zip (metadatas (coll q (min 50 (top_k * 2))))
                                (scored_distances (coll q (min 50 (top_k * 2)))))) \<and>
                  out = map fst (take (nat top_k) (rerank bs)) \<and>
                  mset (rerank bs) = mset bs \<and>
                  sorted_wrt (\<lambda>a b. score b \<le> score a) (rerank bs) \<and>
                  (\<forall>v. filter (\<lambda>b. score b = v) (rerank bs) = filter (\<lambda>b. score b = v) bs)))"
proof (intro conjI impI allI)
  assume "- 1 \<notin> set (distances (coll q (min 50 (top_k * 2))))"
  then obtain bs where "boosted_candidates coll q skills top_k = Inr bs"
    using boosted_candidates_ok by blast
  then show "\<exists>out. query_snippets coll q skills top_k = Inr out"
    by (simp add: query_snippets_def)
next
  fix out assume out: "query_snippets coll q skills top_k = Inr out"
  then obtain bs where bs: "boosted_candidates coll q skills top_k = Inr bs"
    and o: "out = map fst (py_take top_k (rerank bs))"
    by (auto simp: query_snippets_def split: sum.splits)
  from assms o show "length out \<le> nat top_k" by (simp add: length_py_take)
  from assms o have "out = map fst (take (nat top_k) (rerank bs))" by (simp add: py_take_def)
  moreover have "mset (rerank bs) = mset bs" by (simp add: rerank_def)
  moreover note boosted_candidates_eq [OF bs] rerank_sorted [of bs] rerank_stable [of _ bs]
  ultimately show "\<exists>bs. bs = map (\<lambda>(doc, meta, d).
                             (doc, meta, composite_score d meta
                                (fimage lower (case skills of None \<Rightarrow> {||} | Some sk \<Rightarrow> sk))))
                          (zip (documents (coll q (min 50 (top_k * 2))))
                             (zip (metadatas (coll q (min 50 (top_k * 2))))
                                (scored_distances (coll q (min 50 (top_k * 2)))))) \<and>
                  out = map fst (take (nat top_k) (rerank bs)) \<and>
                  mset (rerank bs) = mset bs \<and>
                  sorted_wrt (\<lambda>a b. score b \<le> score a) (rerank bs) \<and>
                  (\<forall>v. filter (\<lambda>b. score b = v) (rerank bs) = filter (\<lambda>b. score b = v) bs)"
    by blast
qed

text \<open>
  The witness is a query on which the boost decides and on which float rounding
  matters: the exact scores of the two candidates are both 7/12, the floats are
  0.5833333333333333 for \<open>A\<close> and 0.5833333333333334 for \<open>B\<close>.
\<close>

theorem retrieval_top_k_witness:
  "(0::int) \<le> 1 \<and>
   (\<exists>out. query_snippets
      (\<lambda>q n. \<lparr>documents = [''A'', ''B''],
               metadatas = [Some \<lparr>tags = Some [''aws''], seniority = ''Senior''\<rparr>,
                            Some \<lparr>tags = Some [''aws'', ''docker'', ''k8s''], seniority = ''Senior''\<rparr>],
               distances = [2, 1]\<rparr>) ''aws engineer'' (Some {|''AWS''|}) 1 = Inr out \<and>
      out = [''B''] \<and> length out \<le> nat 1)"
proof -
  let ?coll = "\<lambda>(q::string) (n::int). \<lparr>documents = [''A'', ''B''],
               metadatas = [Some \<lparr>tags = Some [''aws''], seniority = ''Senior''\<rparr>,
                            Some \<lparr>tags = Some [''aws'', ''docker'', ''k8s''], seniority = ''Senior''\<rparr>],
               distances = [2, 1]\<rparr>"
  have h: "(0::int) \<le> 1" by simp
  have v: "query_snippets ?coll ''aws engineer'' (Some {|''AWS''|}) 1 = Inr [''B'']"
    by code_simp
  from retrieval_top_k [OF h, of ?coll "''aws engineer''" "Some {|''AWS''|}"] v
  have "length [''B''] \<le> nat 1" by blast
  with h v show ?thesis by blast
qed

text \<open>
  Claim C10: \<open>query_snippets\<close> with \<open>jd_skills = None\<close> returns what it returns with
  the empty skill set; with the empty skill set the overlap bonus of every candidate
  is 0, and the candidates carry their base scores as composite scores.
\<close>

theorem none_skills_is_empty:
  "query_snippets coll q None top_k = query_snippets coll q (Some {||}) top_k \<and>
   overlap_score meta (fimage lower {||}) = 0 \<and>
   boosted_candidates coll q None top_k =
     (let res = coll q (min 50 (top_k * 2));
          dists = (if distances res = [] then replicate (length (documents res)) 1 else distances res)
      in case base_scores dists of
           Inl e \<Rightarrow> Inl e
         | Inr bases \<Rightarrow> Inr (zip (documents res) (zip (metadatas res) bases)))"
proof -
  let ?res = "coll q (min 50 (top_k * 2))"
  let ?dists = "if distances ?res = [] then replicate (length (documents ?res)) 1 else distances ?res"
  have 0: "overlap_score m {||} = 0" for m by (simp add: overlap_score_def Let_def)
  have same: "map (\<lambda>(doc, meta, base). (doc, meta, fl (base + fl (0.25 * fl (overlap_score meta {||})))))
                (zip xs (zip ys bases)) = zip xs (zip ys bases)"
    if b: "base_scores ds = Inr bases" for xs :: "string list" and ys :: "snippet_meta option list"
      and ds bases
  proof -
    have "fl (base + fl (0.25 * fl (overlap_score meta {||}))) = base"
      if "(doc, meta, base) \<in> set (zip xs (zip ys bases))" for doc meta base
    proof -
      from that have "base \<in> set bases" by (auto dest!: set_zip_rightD)
      with b have "fl base = base" by (rule base_scores_float)
      then show ?thesis by (simp add: 0 fl_0)
    qed
    then show ?thesis by (intro map_idI) auto
  qed
  have bc: "boosted_candidates coll q sk top_k =
      (case base_scores ?dists of
         Inl e \<Rightarrow> Inl e
       | Inr bases \<Rightarrow> Inr (zip (documents ?res) (zip (metadatas ?res) bases)))"
    if e: "fimage lower (case sk of None \<Rightarrow> {||} | Some s \<Rightarrow> s) = {||}" for sk
  proof (cases "base_scores ?dists")
    case (Inl err)
    then show ?thesis by (simp add: boosted_candidates_def Let_def)
  next
    case (Inr bases)
    from same [OF Inr] Inr show ?thesis by (simp add: boosted_candidates_def Let_def e)
  qed
  have n: "boosted_candidates coll q None top_k = boosted_candidates coll q (Some {||}) top_k"
    by (simp add: bc)
  have "query_snippets coll q None top_k = query_snippets coll q (Some {||}) top_k"
    by (simp add: query_snippets_def n)
  moreover have "overlap_score meta (fimage lower {||}) = 0" by (simp add: 0)
  moreover have "boosted_candidates coll q None top_k =
     (let res = coll q (min 50 (top_k * 2));
          dists = (if distances res = [] then replicate (length (documents res)) 1 else distances res)
      in case base_scores dists of
           Inl e \<Rightarrow> Inl e
         | Inr bases \<Rightarrow> Inr (zip (documents res) (zip (metadatas res) bases)))"
    by (simp add: bc Let_def)
  ultimately show ?thesis by blast
qed

end
